theory Spec2Isabelle
  imports
    Complex_Main
    "HOL-Library.Char_ord"
    "HOL-Library.List_Lexorder"
    "HOL-Library.Word"
    "HOL-Library.Multiset"
    "HOL-Library.AList"
begin

unbundle bit_operations_syntax

section \<open>Conventions of the embedding\<close>

text \<open>
  The engine is TypeScript. Its values are embedded as follows.

  \<^item> A JavaScript \<^verbatim>\<open>number\<close> that holds a timestamp is an \<^typ>\<open>int\<close> (the parser only
    produces \<^verbatim>\<open>Math.floor\<close> results); every other number (amounts, risks, scores,
    ratios) is an exact rational \<^typ>\<open>rat\<close>. Rounding of binary floating point is not
    part of the model.
  \<^item> A string is a \<^typ>\<open>string\<close>; the relational operators on strings and the
    comparator-less \<^verbatim>\<open>Array.prototype.sort\<close> compare code units lexicographically, which
    is the order of \<^typ>\<open>string\<close> from the library theories \<open>List_Lexorder\<close> and
    \<open>Char_ord\<close>.
  \<^item> \<^verbatim>\<open>String.prototype.localeCompare\<close> is a host function (its result depends on the
    collation of the runtime), so every function that calls it takes it as the parameter
    \<open>lc\<close>.
  \<^item> A \<^verbatim>\<open>Set\<close> and the keys of a \<^verbatim>\<open>Map\<close> iterate in insertion order, so a set that is
    iterated is the list of its elements in that order, without repetition; a map that is
    iterated is an association list; a map that is only looked up is a function into
    \<^typ>\<open>'a option\<close>.
  \<^item> \<^verbatim>\<open>Array.prototype.sort\<close> is stable; with a comparator it is the stable insertion
    sort \<open>sort_by\<close> below, which for a consistent comparator returns the one stable
    sorted permutation.
\<close>

section \<open>Host functions\<close>

text \<open>\<^verbatim>\<open>Math.max(lo, Math.min(hi, n))\<close> with the defaults \<^verbatim>\<open>lo = 0, hi = 100\<close>.\<close>

definition clamp :: "rat \<Rightarrow> rat" where
  "clamp n = max 0 (min 100 n)"

text \<open>
  \<^verbatim>\<open>Number(x.toFixed(d))\<close>: the decimal with \<open>d\<close> fraction digits nearest to \<open>x\<close>, a tie
  going away from zero (ECMAScript picks the larger \<open>n\<close> for the absolute value).
\<close>

definition toFixed :: "nat \<Rightarrow> rat \<Rightarrow> rat" where
  "toFixed d x =
     (if x < 0 then - (of_int \<lfloor>(- x) * 10 ^ d + 1 / 2\<rfloor> / 10 ^ d)
      else of_int \<lfloor>x * 10 ^ d + 1 / 2\<rfloor> / 10 ^ d)"

text \<open>\<^verbatim>\<open>xs.join(sep)\<close>.\<close>

fun join :: "string \<Rightarrow> string list \<Rightarrow> string" where
  "join sep [] = []"
| "join sep [x] = x"
| "join sep (x # y # ys) = x @ sep @ join sep (y # ys)"

text \<open>
  \<^verbatim>\<open>new Set(xs)\<close>, as the list of its elements in insertion order: each element is added
  unless the set has it already.
\<close>

fun set_add_all :: "'a list \<Rightarrow> 'a list \<Rightarrow> 'a list" where
  "set_add_all acc [] = acc"
| "set_add_all acc (x # xs) = set_add_all (if x \<in> set acc then acc else acc @ [x]) xs"

definition new_Set :: "'a list \<Rightarrow> 'a list" where
  "new_Set xs = set_add_all [] xs"

text \<open>
  \<^verbatim>\<open>xs.sort(cmp)\<close>, stable. The comparator is given by its test \<open>le a b\<close>, which stands
  for \<^verbatim>\<open>cmp(a, b) <= 0\<close>.
\<close>

fun insert_by :: "('a \<Rightarrow> 'a \<Rightarrow> bool) \<Rightarrow> 'a \<Rightarrow> 'a list \<Rightarrow> 'a list" where
  "insert_by le x [] = [x]"
| "insert_by le x (y # ys) = (if le x y then x # y # ys else y # insert_by le x ys)"

definition sort_by :: "('a \<Rightarrow> 'a \<Rightarrow> bool) \<Rightarrow> 'a list \<Rightarrow> 'a list" where
  "sort_by le xs = foldr (insert_by le) xs []"

section \<open>Ring candidates (output.ts)\<close>

record RingCandidate =
  pattern_type :: string
  member_accounts :: "string list"
  risk_score :: rat

section \<open>Ring merger (rings/merge.ts)\<close>

text \<open>
  \<^verbatim>\<open>jaccard(a, b)\<close> on two \<^verbatim>\<open>Set\<close>s: the loop counts the elements of \<open>a\<close> that \<open>b\<close> has;
  \<^verbatim>\<open>size\<close> is the length of the element list.
\<close>

definition jaccard :: "string list \<Rightarrow> string list \<Rightarrow> rat" where
  "jaccard a b =
     (let inter = length (filter (\<lambda>x. x \<in> set b) a);
          uni = length a + length b - inter
      in if uni = 0 then 0 else of_nat inter / of_nat uni)"

text \<open>
  \<^verbatim>\<open>mergeRings\<close> as the source writes it, with the array \<^verbatim>\<open>used\<close> and the indices \<open>i\<close> and
  \<open>j\<close>. The state of the inner loop is \<^verbatim>\<open>(used, (bestRisk, bestMembers))\<close>, that of the
  outer loop \<^verbatim>\<open>(used, out)\<close>.
\<close>

definition mergeInner ::
  "RingCandidate list \<Rightarrow> RingCandidate \<Rightarrow> string list \<Rightarrow> rat \<Rightarrow> nat
    \<Rightarrow> bool list \<times> rat \<times> string list \<Rightarrow> bool list \<times> rat \<times> string list" where
  "mergeInner rings base members J j s =
     (if fst s ! j then s
      else (let r = rings ! j
            in if pattern_type r \<noteq> pattern_type base then s
               else if jaccard members (new_Set (member_accounts r)) \<ge> J then
                 ((fst s)[j := True],
                  (if risk_score r > fst (snd s) then (risk_score r, member_accounts r) else snd s))
               else s))"

definition mergeOuter ::
  "RingCandidate list \<Rightarrow> rat \<Rightarrow> nat \<Rightarrow> bool list \<times> RingCandidate list
    \<Rightarrow> bool list \<times> RingCandidate list" where
  "mergeOuter rings J i s =
     (if fst s ! i then s
      else (let base = rings ! i;
                members = new_Set (member_accounts base);
                res = fold (mergeInner rings base members J) [i + 1..<length rings]
                        (fst s, (risk_score base, member_accounts base))
            in (fst res,
                snd s @ [base\<lparr>member_accounts := snd (snd res), risk_score := fst (snd res)\<rparr>])))"

definition mergeRings :: "RingCandidate list \<Rightarrow> rat \<Rightarrow> RingCandidate list" where
  "mergeRings rings J =
     snd (fold (mergeOuter rings J) [0..<length rings] (replicate (length rings) False, []))"

text \<open>
  The same two loops as recursions on the list of the rings that are not yet consumed,
  which is the form the proofs use. The inner loop for one base ring, over the later
  unconsumed rings in index order: it threads \<^verbatim>\<open>(bestRisk, bestMembers)\<close> and returns it
  with the rings it left unconsumed (those whose \<^verbatim>\<open>used[j]\<close> stays false).
\<close>

fun absorb ::
  "RingCandidate \<Rightarrow> string list \<Rightarrow> rat \<Rightarrow> rat \<times> string list \<Rightarrow> RingCandidate list
    \<Rightarrow> (rat \<times> string list) \<times> RingCandidate list" where
  "absorb base members J best [] = (best, [])"
| "absorb base members J best (r # rs) =
     (if pattern_type r \<noteq> pattern_type base then
        (let res = absorb base members J best rs in (fst res, r # snd res))
      else if jaccard members (new_Set (member_accounts r)) \<ge> J then
        absorb base members J
          (if risk_score r > fst best then (risk_score r, member_accounts r) else best) rs
      else
        (let res = absorb base members J best rs in (fst res, r # snd res)))"

text \<open>
  The outer loop, on the same list: the argument holds the rings whose \<^verbatim>\<open>used\<close> flag is
  still false, in index order; the first of them is the next base, and the inner loop
  removes the rings it consumes. \<open>mergeRings_unused\<close> below proves that this is what
  \<open>mergeRings\<close> computes.
\<close>

function mergeUnused :: "RingCandidate list \<Rightarrow> rat \<Rightarrow> RingCandidate list" where
  "mergeUnused [] J = []"
| "mergeUnused (base # rs) J =
     (let members = new_Set (member_accounts base);
          res = absorb base members J (risk_score base, member_accounts base) rs
      in base\<lparr>member_accounts := snd (fst res), risk_score := fst (fst res)\<rparr>
         # mergeUnused (snd res) J)"
  by pat_completeness auto
termination
proof (relation "measure (\<lambda>(rs, J). length rs)")
  show "wf (measure (\<lambda>(rs, J :: rat). length (rs :: RingCandidate list)))"
    by simp
next
  fix base :: RingCandidate and rs J members res
  assume m: "members = new_Set (member_accounts base)"
    and r: "res = absorb base members J (risk_score base, member_accounts base) rs"
  have "length (snd (absorb base members J best rs)) \<le> length rs" for best
    by (induction rs arbitrary: best) (auto simp: Let_def intro: le_SucI)
  then show "((snd res, J), (base # rs, J)) \<in> measure (\<lambda>(rs, J). length rs)"
    using r by (simp add: le_imp_less_Suc)
qed

text \<open>
  The merge classes: for each base ring, the base followed by the rings its inner loop
  consumes (those it marks \<^verbatim>\<open>used\<close>), in index order.
\<close>

fun consumed :: "RingCandidate \<Rightarrow> string list \<Rightarrow> rat \<Rightarrow> RingCandidate list \<Rightarrow> RingCandidate list" where
  "consumed base members J [] = []"
| "consumed base members J (r # rs) =
     (if pattern_type r \<noteq> pattern_type base then consumed base members J rs
      else if jaccard members (new_Set (member_accounts r)) \<ge> J then r # consumed base members J rs
      else consumed base members J rs)"

function mergeClasses :: "RingCandidate list \<Rightarrow> rat \<Rightarrow> RingCandidate list list" where
  "mergeClasses [] J = []"
| "mergeClasses (base # rs) J =
     (let members = new_Set (member_accounts base);
          res = absorb base members J (risk_score base, member_accounts base) rs
      in (base # consumed base members J rs) # mergeClasses (snd res) J)"
  by pat_completeness auto
termination
proof (relation "measure (\<lambda>(rs, J). length rs)")
  show "wf (measure (\<lambda>(rs, J :: rat). length (rs :: RingCandidate list)))"
    by simp
next
  fix base :: RingCandidate and rs J members res
  assume m: "members = new_Set (member_accounts base)"
    and r: "res = absorb base members J (risk_score base, member_accounts base) rs"
  have "length (snd (absorb base members J best rs)) \<le> length rs" for best
    by (induction rs arbitrary: best) (auto simp: Let_def intro: le_SucI)
  then show "((snd res, J), (base # rs, J)) \<in> measure (\<lambda>(rs, J). length rs)"
    using r by (simp add: le_imp_less_Suc)
qed

text \<open>
  No two rings of the same pattern type reach the threshold: the condition under which
  the inner loop consumes nothing.
\<close>

fun below_threshold :: "rat \<Rightarrow> RingCandidate list \<Rightarrow> bool" where
  "below_threshold J [] = True"
| "below_threshold J (base # rs) =
     (consumed base (new_Set (member_accounts base)) J rs = [] \<and> below_threshold J rs)"

text \<open>The test of the inner loop: the ring has the base's pattern type and reaches the threshold.\<close>

definition merged :: "RingCandidate \<Rightarrow> string list \<Rightarrow> rat \<Rightarrow> RingCandidate \<Rightarrow> bool" where
  "merged base members J r \<longleftrightarrow>
     pattern_type r = pattern_type base \<and> jaccard members (new_Set (member_accounts r)) \<ge> J"

text \<open>
  An emitted ring represents its merge class: it is one of the class's rings, every ring
  of the class has its pattern type, and none has a higher risk.
\<close>

definition represents :: "RingCandidate \<Rightarrow> RingCandidate list \<Rightarrow> bool" where
  "represents out cls \<longleftrightarrow>
     out \<in> set cls \<and>
     list_all (\<lambda>r. pattern_type r = pattern_type out \<and> risk_score r \<le> risk_score out) cls"

text \<open>
  The rings whose index is at least \<open>i\<close> and whose \<^verbatim>\<open>used\<close> flag is false, in index order:
  the link between the two forms of the merger.
\<close>

definition remaining :: "RingCandidate list \<Rightarrow> bool list \<Rightarrow> nat \<Rightarrow> RingCandidate list" where
  "remaining rings used i = map (\<lambda>k. rings ! k) (filter (\<lambda>k. \<not> used ! k) [i..<length rings])"

section \<open>Output assembler (output.ts, types/output.ts)\<close>

text \<open>
  \<^verbatim>\<open>FraudRing\<close> has the three fields of a ring candidate and \<^verbatim>\<open>ring_id\<close>. The field
  \<^verbatim>\<open>ring_id\<close> of \<^verbatim>\<open>SuspiciousAccount\<close> is \<open>account_ring_id\<close> here (one name, one field).
\<close>

record FraudRing = RingCandidate +
  ring_id :: string

record SuspiciousAccount =
  account_id :: string
  suspicion_score :: rat
  detected_patterns :: "string list"
  account_ring_id :: "string option"

record OutputSummary =
  total_accounts_analyzed :: nat
  suspicious_accounts_flagged :: nat
  fraud_rings_detected :: nat
  processing_time_seconds :: rat

record OutputJSON =
  summary :: OutputSummary
  fraud_rings :: "FraudRing list"
  suspicious_accounts :: "SuspiciousAccount list"

text \<open>The account score state of score.ts; \<^verbatim>\<open>patterns\<close> is a \<^verbatim>\<open>Set\<close>.\<close>

record AccountScoreState =
  score :: rat
  patterns :: "string list"
  ringId :: "string option"

text \<open>\<^verbatim>\<open>localeCompare\<close>, the host's collation, as a parameter.\<close>

type_synonym collation = "string \<Rightarrow> string \<Rightarrow> int"

fun uniqLoop :: "string list \<Rightarrow> string set \<Rightarrow> string list \<Rightarrow> string list" where
  "uniqLoop out seen [] = out"
| "uniqLoop out seen (x # xs) =
     (if x \<notin> seen then uniqLoop (out @ [x]) (insert x seen) xs else uniqLoop out seen xs)"

definition uniqPreserveOrder :: "string list \<Rightarrow> string list" where
  "uniqPreserveOrder xs = uniqLoop [] {} xs"

definition ringSignature :: "'a RingCandidate_scheme \<Rightarrow> string" where
  "ringSignature r =
     (let members = sort (new_Set (member_accounts r))
      in pattern_type r @ ''|'' @ join '','' members)"

text \<open>\<^verbatim>\<open>order.indexOf(p)\<close>, with \<open>-1\<close> for a missing element.\<close>

fun indexOf :: "'a list \<Rightarrow> 'a \<Rightarrow> int" where
  "indexOf [] p = - 1"
| "indexOf (x # xs) p = (if x = p then 0 else (let i = indexOf xs p in if i = - 1 then - 1 else i + 1))"

definition patternRank :: "string \<Rightarrow> int" where
  "patternRank p =
     (let order = [''cycle_length_3'', ''cycle_length_4'', ''cycle_length_5'', ''cycle'',
                   ''smurfing_fan_in'', ''smurfing_fan_out'', ''temporal_72h'',
                   ''layered_shell_chain'', ''source_funds'', ''low_activity_shell'',
                   ''pre_cashout'', ''cash_out''];
          i = indexOf order p
      in if i = - 1 then 999 else i)"

definition orderPatterns :: "collation \<Rightarrow> string list \<Rightarrow> string list" where
  "orderPatterns lc pats =
     sort_by (\<lambda>a b. (let ra = patternRank a; rb = patternRank b
                      in if ra \<noteq> rb then ra - rb else lc a b) \<le> 0) pats"

definition patternPriority :: "string \<Rightarrow> int" where
  "patternPriority pt =
     (if pt = ''cycle'' then 1 else if pt = ''smurfing'' then 2
      else if pt = ''layered_shell'' then 3 else 9)"

text \<open>
  Step 1 of \<^verbatim>\<open>buildDeterministicOutput\<close>: the loop that fills the map \<^verbatim>\<open>bestBySig\<close>.
  \<^verbatim>\<open>Map.set\<close> replaces the value of a key in place and appends a new key.
\<close>

fun bestBySig_loop :: "(string \<times> RingCandidate) list \<Rightarrow> RingCandidate list \<Rightarrow> (string \<times> RingCandidate) list" where
  "bestBySig_loop bestBySig [] = bestBySig"
| "bestBySig_loop bestBySig (r # rs) =
     (let sig = ringSignature r
      in case map_of bestBySig sig of
           None \<Rightarrow> bestBySig_loop (AList.update sig r bestBySig) rs
         | Some prev \<Rightarrow>
             if risk_score r > risk_score prev
             then bestBySig_loop (AList.update sig r bestBySig) rs
             else bestBySig_loop bestBySig rs)"

text \<open>Step 2: the comparator of the ring sort, and the sorted ring list.\<close>

definition ringCompare :: "collation \<Rightarrow> RingCandidate \<Rightarrow> RingCandidate \<Rightarrow> int" where
  "ringCompare lc a b =
     (let pa = patternPriority (pattern_type a); pb = patternPriority (pattern_type b)
      in if pa \<noteq> pb then pa - pb
         else (let sa = join ''|'' (sort (new_Set (member_accounts a)));
                   sb = join ''|'' (sort (new_Set (member_accounts b)))
               in lc sa sb))"

definition ringList :: "collation \<Rightarrow> RingCandidate list \<Rightarrow> RingCandidate list" where
  "ringList lc rings =
     sort_by (\<lambda>a b. ringCompare lc a b \<le> 0) (map snd (bestBySig_loop [] rings))"

text \<open>\<^verbatim>\<open>String(n)\<close> for a natural number, and \<^verbatim>\<open>padStart(3, "0")\<close>.\<close>

fun String_of_nat :: "nat \<Rightarrow> string" where
  "String_of_nat n =
     (if n < 10 then [''0123456789'' ! n]
      else String_of_nat (n div 10) @ [''0123456789'' ! (n mod 10)])"

declare String_of_nat.simps [simp del]

definition padStart3 :: "string \<Rightarrow> string" where
  "padStart3 s = replicate (3 - length s) (CHR ''0'') @ s"

text \<open>Step 2, continued: the emitted ring at index \<open>idx\<close>.\<close>

definition toFraudRing :: "nat \<Rightarrow> RingCandidate \<Rightarrow> FraudRing" where
  "toFraudRing idx r =
     \<lparr>pattern_type = pattern_type r,
      member_accounts =
        (if pattern_type r = ''cycle'' then sort (new_Set (member_accounts r))
         else uniqPreserveOrder (member_accounts r)),
      risk_score = clamp (toFixed 1 (risk_score r)),
      ring_id = ''RING_'' @ padStart3 (String_of_nat (idx + 1))\<rparr>"

definition toFraudRings :: "RingCandidate list \<Rightarrow> FraudRing list" where
  "toFraudRings rs = map (\<lambda>(idx, r). toFraudRing idx r) (enumerate 0 rs)"

text \<open>Step 3: the map from a member to its best ring, \<^verbatim>\<open>(ring_id, risk)\<close>.\<close>

definition bestRingStep :: "FraudRing \<Rightarrow> string \<Rightarrow> (string \<rightharpoonup> string \<times> rat) \<Rightarrow> (string \<rightharpoonup> string \<times> rat)" where
  "bestRingStep ring m best =
     (case best m of
        None \<Rightarrow> best(m \<mapsto> (ring_id ring, risk_score ring))
      | Some prev \<Rightarrow>
          if risk_score ring > snd prev \<or> (risk_score ring = snd prev \<and> ring_id ring < fst prev)
          then best(m \<mapsto> (ring_id ring, risk_score ring))
          else best)"

definition memberToBestRing :: "FraudRing list \<Rightarrow> (string \<rightharpoonup> string \<times> rat)" where
  "memberToBestRing rings =
     fold (\<lambda>ring mp. fold (bestRingStep ring) (member_accounts ring) mp) rings Map.empty"

text \<open>
  Step 4: the body of the loop over the entries of \<^verbatim>\<open>accountScores\<close>; \<open>None\<close> is a
  \<^verbatim>\<open>continue\<close>.
\<close>

definition suspiciousEntry ::
  "collation \<Rightarrow> (string \<rightharpoonup> string \<times> rat) \<Rightarrow> string \<times> AccountScoreState \<Rightarrow> SuspiciousAccount option" where
  "suspiciousEntry lc best e =
     (let account = fst e; v = snd e;
          suspicion = clamp (toFixed 1 (score v))
      in if suspicion < 60 then None
         else (let rid = (case best account of Some b \<Rightarrow> Some (fst b) | None \<Rightarrow> ringId v);
                   pats = new_Set (patterns v)
               in if length pats = 0 then None
                  else Some \<lparr>account_id = account, suspicion_score = suspicion,
                             detected_patterns = orderPatterns lc pats,
                             account_ring_id = rid\<rparr>))"

definition accountCompare :: "collation \<Rightarrow> SuspiciousAccount \<Rightarrow> SuspiciousAccount \<Rightarrow> rat" where
  "accountCompare lc a b =
     (if suspicion_score b - suspicion_score a \<noteq> 0 then suspicion_score b - suspicion_score a
      else of_int (lc (account_id a) (account_id b)))"

definition buildDeterministicOutput ::
  "collation \<Rightarrow> string list \<Rightarrow> RingCandidate list \<Rightarrow> (string \<times> AccountScoreState) list \<Rightarrow> rat
    \<Rightarrow> OutputJSON" where
  "buildDeterministicOutput lc allNodes rings accountScores processingSeconds =
     (let rings' = toFraudRings (ringList lc rings);
          best = memberToBestRing rings';
          accounts = sort_by (\<lambda>a b. accountCompare lc a b \<le> 0)
                       (List.map_filter (suspiciousEntry lc best) accountScores)
      in \<lparr>summary =
            \<lparr>total_accounts_analyzed = length allNodes,
             suspicious_accounts_flagged = length accounts,
             fraud_rings_detected = length rings',
             processing_time_seconds = toFixed 3 processingSeconds\<rparr>,
          fraud_rings = rings',
          suspicious_accounts = accounts\<rparr>)"

text \<open>
  ECMAScript requires \<^verbatim>\<open>localeCompare\<close> to be a consistent comparator: as a test
  \<^verbatim>\<open>lc(a, b) <= 0\<close> it is total and transitive.
\<close>

definition consistent_comparator :: "collation \<Rightarrow> bool" where
  "consistent_comparator lc \<longleftrightarrow>
     (\<forall>a b. lc a b \<le> 0 \<or> lc b a \<le> 0) \<and>
     (\<forall>a b c. lc a b \<le> 0 \<and> lc b c \<le> 0 \<longrightarrow> lc a c \<le> 0)"

text \<open>A collation for concrete runs: the comparison of code units.\<close>

definition codeUnitCompare :: collation where
  "codeUnitCompare a b = (if a < b then - 1 else if a = b then 0 else 1)"

text \<open>
  An entry of the score map qualifies for emission: its rounded, clamped score is at least
  60 and its tag set is not empty.
\<close>

definition qualifies :: "string \<times> AccountScoreState \<Rightarrow> bool" where
  "qualifies e \<longleftrightarrow> 60 \<le> clamp (toFixed 1 (score (snd e))) \<and> patterns (snd e) \<noteq> []"

text \<open>The order of the emitted accounts: descending score, then ascending account id.\<close>

definition accountBefore :: "collation \<Rightarrow> SuspiciousAccount \<Rightarrow> SuspiciousAccount \<Rightarrow> bool" where
  "accountBefore lc x y \<longleftrightarrow>
     suspicion_score x > suspicion_score y \<or>
     (suspicion_score x = suspicion_score y \<and> lc (account_id x) (account_id y) \<le> 0)"

text \<open>The key of the ring sort, and the order the sort establishes.\<close>

definition memberKey :: "'a RingCandidate_scheme \<Rightarrow> string" where
  "memberKey r = join ''|'' (sort (new_Set (member_accounts r)))"

definition ringBefore :: "collation \<Rightarrow> 'a RingCandidate_scheme \<Rightarrow> 'a RingCandidate_scheme \<Rightarrow> bool" where
  "ringBefore lc a b \<longleftrightarrow>
     patternPriority (pattern_type a) < patternPriority (pattern_type b) \<or>
     (patternPriority (pattern_type a) = patternPriority (pattern_type b) \<and>
      lc (memberKey a) (memberKey b) \<le> 0)"

text \<open>
  The invariant of the loop that fills \<^verbatim>\<open>bestBySig\<close>, after the rings \<open>S\<close>: the keys are
  the signatures seen, and each key holds a ring of that signature that no seen ring of
  the signature exceeds in risk.
\<close>

definition sig_inv :: "RingCandidate set \<Rightarrow> (string \<times> RingCandidate) list \<Rightarrow> bool" where
  "sig_inv S B \<longleftrightarrow>
     distinct (map fst B) \<and> fst ` set B = ringSignature ` S \<and>
     (\<forall>k r. map_of B k = Some r \<longrightarrow>
        ringSignature r = k \<and> r \<in> S \<and>
        (\<forall>r' \<in> S. ringSignature r' = k \<longrightarrow> risk_score r' \<le> risk_score r))"

section \<open>Transactions and the graph (parse.ts, graph.ts)\<close>

text \<open>A parsed transaction. The field \<^verbatim>\<open>t\<close> (epoch seconds) is \<open>t_sec\<close> here.\<close>

record Tx =
  transaction_id :: "string option"
  sender_id :: string
  receiver_id :: string
  amount :: rat
  t_sec :: int

text \<open>
  The graph. \<^verbatim>\<open>nodes\<close> and the neighbour sets are \<^verbatim>\<open>Set\<close>s, kept in insertion order; the
  maps are only looked up by the detectors (the shell detector's pass over the entries of
  \<^verbatim>\<open>degreeTotal\<close> builds a set that is only tested for membership).
\<close>

record Graph =
  nodes :: "string list"
  outNeighbors :: "string \<rightharpoonup> string list"
  inNeighbors :: "string \<rightharpoonup> string list"
  txIn :: "string \<rightharpoonup> Tx list"
  txOut :: "string \<rightharpoonup> Tx list"
  edgeTx :: "string \<rightharpoonup> Tx list"
  degreeTotal :: "string \<rightharpoonup> nat"

text \<open>\<^verbatim>\<open>s.add(x)\<close> on a \<^verbatim>\<open>Set\<close>.\<close>

definition Set_add :: "'a list \<Rightarrow> 'a \<Rightarrow> 'a list" where
  "Set_add s x = (if x \<in> set s then s else s @ [x])"

definition edgeKey :: "string \<Rightarrow> string \<Rightarrow> string" where
  "edgeKey a b = a @ ''|'' @ b"

definition push :: "(string \<rightharpoonup> Tx list) \<Rightarrow> string \<Rightarrow> Tx \<Rightarrow> (string \<rightharpoonup> Tx list)" where
  "push m k tx = (case m k of Some a \<Rightarrow> m(k \<mapsto> a @ [tx]) | None \<Rightarrow> m(k \<mapsto> [tx]))"

definition addNeighbor :: "(string \<rightharpoonup> string list) \<Rightarrow> string \<Rightarrow> string \<Rightarrow> (string \<rightharpoonup> string list)" where
  "addNeighbor m a b = (case m a of Some s \<Rightarrow> m(a \<mapsto> Set_add s b) | None \<Rightarrow> m(a \<mapsto> [b]))"

definition bumpDegree :: "(string \<rightharpoonup> nat) \<Rightarrow> string \<Rightarrow> (string \<rightharpoonup> nat)" where
  "bumpDegree m k = m(k \<mapsto> (case m k of Some d \<Rightarrow> d | None \<Rightarrow> 0) + 1)"

text \<open>The body of the loop over the transactions.\<close>

definition addTx :: "Tx \<Rightarrow> Graph \<Rightarrow> Graph" where
  "addTx tx g =
     \<lparr>nodes = Set_add (Set_add (nodes g) (sender_id tx)) (receiver_id tx),
      outNeighbors = addNeighbor (outNeighbors g) (sender_id tx) (receiver_id tx),
      inNeighbors = addNeighbor (inNeighbors g) (receiver_id tx) (sender_id tx),
      txIn = push (txIn g) (receiver_id tx) tx,
      txOut = push (txOut g) (sender_id tx) tx,
      edgeTx = push (edgeTx g) (edgeKey (sender_id tx) (receiver_id tx)) tx,
      degreeTotal = bumpDegree (bumpDegree (degreeTotal g) (sender_id tx)) (receiver_id tx)\<rparr>"

definition emptyGraph :: Graph where
  "emptyGraph =
     \<lparr>nodes = [], outNeighbors = Map.empty, inNeighbors = Map.empty, txIn = Map.empty,
      txOut = Map.empty, edgeTx = Map.empty, degreeTotal = Map.empty\<rparr>"

text \<open>
  \<^verbatim>\<open>arr.sort((a, b) => a.t - b.t)\<close> on every list of a map: the stable sort by time.
\<close>

definition sortByTime :: "(string \<rightharpoonup> Tx list) \<Rightarrow> (string \<rightharpoonup> Tx list)" where
  "sortByTime m = (\<lambda>k. map_option (sort_key t_sec) (m k))"

definition buildGraph :: "Tx list \<Rightarrow> Graph" where
  "buildGraph txs =
     (let g = fold addTx txs emptyGraph
      in g\<lparr>txIn := sortByTime (txIn g), txOut := sortByTime (txOut g),
           edgeTx := sortByTime (edgeTx g)\<rparr>)"

section \<open>Detector results\<close>

text \<open>
  What a detector accumulates: the ring candidates, the evidence map (an association list:
  the pipeline iterates its entries) and the set of keys already emitted. \<open>found\<close> is the
  per-start counter of the shell detector.
\<close>

record Detection =
  det_rings :: "RingCandidate list"
  det_evidence :: "(string \<times> string list) list"
  det_seen :: "string set"
  det_found :: nat

definition emptyDetection :: Detection where
  "emptyDetection = \<lparr>det_rings = [], det_evidence = [], det_seen = {}, det_found = 0\<rparr>"

text \<open>The closure \<^verbatim>\<open>add(a, p)\<close> of the detectors.\<close>

definition addEvidence :: "string \<Rightarrow> string \<Rightarrow> (string \<times> string list) list \<Rightarrow> (string \<times> string list) list" where
  "addEvidence a p ev =
     (let s = (case map_of ev a of Some s \<Rightarrow> s | None \<Rightarrow> [])
      in AList.update a (Set_add s p) ev)"

section \<open>Cycle detector (detect/cycles.ts)\<close>

definition canonicalCycle :: "string list \<Rightarrow> string list" where
  "canonicalCycle ns =
     fold (\<lambda>s best. (let rot = drop s ns @ take s ns
                      in if join ''|'' rot < join ''|'' best then rot else best))
       [1..<length ns] ns"

definition cycleRisk :: "nat \<Rightarrow> int \<Rightarrow> rat" where
  "cycleRisk len spanSeconds =
     (let base = (if len = 3 then 893 / 10 else if len = 4 then 877 / 10 else 85);
          hours = of_int spanSeconds / 3600 :: rat;
          bonus = (if hours \<le> 1 then 10 else if hours \<le> 6 then 6 else if hours \<le> 24 then 3 else 0)
      in clamp (base + bonus))"

text \<open>
  The loop over the edges of a path or cycle that tracks \<^verbatim>\<open>minT\<close> (\<open>None\<close> is
  \<^verbatim>\<open>+Infinity\<close>) and \<^verbatim>\<open>maxT\<close>.
\<close>

definition spanStep :: "Graph \<Rightarrow> string \<times> string \<Rightarrow> int option \<times> int \<Rightarrow> int option \<times> int" where
  "spanStep g e mm =
     (case edgeTx g (edgeKey (fst e) (snd e)) of
        None \<Rightarrow> mm
      | Some arr \<Rightarrow>
          if arr = [] then mm
          else ((case fst mm of None \<Rightarrow> Some (t_sec (hd arr))
                              | Some m \<Rightarrow> Some (min m (t_sec (hd arr)))),
                max (snd mm) (t_sec (last arr))))"

definition cycleEdges :: "string list \<Rightarrow> (string \<times> string) list" where
  "cycleEdges cyc = map (\<lambda>i. (cyc ! i, cyc ! ((i + 1) mod length cyc))) [0..<length cyc]"

definition spanOf :: "int option \<times> int \<Rightarrow> int" where
  "spanOf mm = (case fst mm of None \<Rightarrow> max 0 (0 - 0) | Some minT \<Rightarrow> max 0 (snd mm - minT))"

text \<open>The block run when a successor closes the path at depth 3 to 5.\<close>

definition closeCycle :: "Graph \<Rightarrow> string list \<Rightarrow> Detection \<Rightarrow> Detection" where
  "closeCycle g path st =
     (let cyc = canonicalCycle path; key = join ''|'' cyc
      in if key \<in> det_seen st then st
         else (let span = spanOf (fold (spanStep g) (cycleEdges cyc) (None, 0));
                   ring = \<lparr>pattern_type = ''cycle'', member_accounts = sort cyc,
                           risk_score = cycleRisk (length cyc) span\<rparr>;
                   pat = ''cycle_length_'' @ String_of_nat (length cyc);
                   ev1 = fold (\<lambda>a. addEvidence a pat) cyc (det_evidence st);
                   ev2 = fold (\<lambda>a. addEvidence a ''cycle'') cyc ev1
               in st\<lparr>det_rings := det_rings st @ [ring], det_evidence := ev2,
                      det_seen := insert key (det_seen st)\<rparr>))"

text \<open>
  The recursive \<^verbatim>\<open>dfs(u, depth)\<close> and its loop over the successors. \<^verbatim>\<open>path\<close> and
  \<^verbatim>\<open>visited\<close> are passed down extended; the source extends them before the call and
  restores them after it.
\<close>

function dfsCycle ::
    "Graph \<Rightarrow> (string \<rightharpoonup> nat) \<Rightarrow> string \<Rightarrow> nat \<Rightarrow> string list \<Rightarrow> string set \<Rightarrow> string \<Rightarrow> nat
      \<Rightarrow> Detection \<Rightarrow> Detection"
  and dfsCycleLoop ::
    "Graph \<Rightarrow> (string \<rightharpoonup> nat) \<Rightarrow> string \<Rightarrow> nat \<Rightarrow> string list \<Rightarrow> string set \<Rightarrow> nat
      \<Rightarrow> string list \<Rightarrow> Detection \<Rightarrow> Detection" where
  "dfsCycle g idx start startIdx path visited u depth st =
     (if depth > 5 then st
      else case outNeighbors g u of
             None \<Rightarrow> st
           | Some nbrs \<Rightarrow> dfsCycleLoop g idx start startIdx path visited depth nbrs st)"
| "dfsCycleLoop g idx start startIdx path visited depth [] st = st"
| "dfsCycleLoop g idx start startIdx path visited depth (v # vs) st =
     (case idx v of
        None \<Rightarrow> dfsCycleLoop g idx start startIdx path visited depth vs st
      | Some vi \<Rightarrow>
          if vi < startIdx then dfsCycleLoop g idx start startIdx path visited depth vs st
          else if v = start then
            dfsCycleLoop g idx start startIdx path visited depth vs
              (if depth \<ge> 3 \<and> depth \<le> 5 then closeCycle g path st else st)
          else if v \<in> visited then dfsCycleLoop g idx start startIdx path visited depth vs st
          else
            dfsCycleLoop g idx start startIdx path visited depth vs
              (dfsCycle g idx start startIdx (path @ [v]) (insert v visited) v (depth + 1) st))"
  by pat_completeness auto
termination
  by (relation "inv_image (less_than <*lex*> less_than <*lex*> less_than)
        (\<lambda>x. case x of
           Inl (g, idx, start, startIdx, path, visited, u, depth, st) \<Rightarrow>
             (if depth > 5 then (0, 0, 0) else (6 - depth, 1, 0))
         | Inr (g, idx, start, startIdx, path, visited, depth, vs, st) \<Rightarrow>
             (6 - depth, 0, length vs + 1))")
     auto

definition detectCycles35 :: "Graph \<Rightarrow> Detection" where
  "detectCycles35 g =
     (let ns = sort (nodes g);
          idx = map_of (zip ns [0..<length ns])
      in fold (\<lambda>start st. dfsCycle g idx start (the (idx start)) [start] {start} start 1 st)
           ns emptyDetection)"

text \<open>A transaction without an id, for concrete inputs.\<close>

definition mkTx :: "string \<Rightarrow> string \<Rightarrow> rat \<Rightarrow> int \<Rightarrow> Tx" where
  "mkTx s r a t = \<lparr>transaction_id = None, sender_id = s, receiver_id = r, amount = a, t_sec = t\<rparr>"

text \<open>What every emitted cycle ring satisfies: 3 to 5 members, pairwise distinct.\<close>

definition cycle_sized :: "RingCandidate \<Rightarrow> bool" where
  "cycle_sized r \<longleftrightarrow>
     pattern_type r = ''cycle'' \<and>
     3 \<le> length (member_accounts r) \<and> length (member_accounts r) \<le> 5 \<and>
     distinct (member_accounts r)"

section \<open>Shell-chain detector (detect/shellChains.ts)\<close>

definition chainRisk :: "nat \<Rightarrow> int \<Rightarrow> rat" where
  "chainRisk hops spanSeconds =
     (let base = 78 + (35 / 10) * (of_nat hops - 3);
          hours = of_int spanSeconds / 3600 :: rat;
          bonus = (if hours \<le> 2 then 10 else if hours \<le> 12 then 6 else if hours \<le> 48 then 3 else 0)
      in clamp (base + bonus))"

definition edgeMedianAmount :: "Graph \<Rightarrow> string \<Rightarrow> string \<Rightarrow> rat" where
  "edgeMedianAmount g a b =
     (let arr = (case edgeTx g (edgeKey a b) of Some arr \<Rightarrow> arr | None \<Rightarrow> [])
      in if arr = [] then 0
         else (let amts = sort (map amount arr); mid = length amts div 2
               in if length amts mod 2 \<noteq> 0 then amts ! mid
                  else (amts ! (mid - 1) + amts ! mid) / 2))"

text \<open>The set \<^verbatim>\<open>low\<close>: the nodes with 2 or 3 transactions in total.\<close>

definition low :: "Graph \<Rightarrow> string \<Rightarrow> bool" where
  "low g n = (case degreeTotal g n of Some txCount \<Rightarrow> txCount \<ge> 2 \<and> txCount \<le> 3 | None \<Rightarrow> False)"

text \<open>\<^verbatim>\<open>graph.inNeighbors.get(node)?.size ?? 0\<close> and its twin.\<close>

definition indeg :: "Graph \<Rightarrow> string \<Rightarrow> nat" where
  "indeg g n = (case inNeighbors g n of Some s \<Rightarrow> length s | None \<Rightarrow> 0)"

definition outdeg :: "Graph \<Rightarrow> string \<Rightarrow> nat" where
  "outdeg g n = (case outNeighbors g n of Some s \<Rightarrow> length s | None \<Rightarrow> 0)"

text \<open>
  The first loop of the acceptance block, over the indices \<open>1 .. length path - 2\<close>: every
  intermediate is low and has one in-neighbour and one out-neighbour.
\<close>

definition shellLike :: "Graph \<Rightarrow> string \<Rightarrow> bool" where
  "shellLike g n \<longleftrightarrow> low g n \<and> \<not> (indeg g n \<noteq> 1 \<or> outdeg g n \<noteq> 1)"

definition intermediatesOk :: "Graph \<Rightarrow> string list \<Rightarrow> bool" where
  "intermediatesOk g path = list_all (\<lambda>i. shellLike g (path ! i)) [1..<length path - 1]"

text \<open>
  The second loop, over the edges of the path. Its state is \<^verbatim>\<open>minT\<close> (\<open>None\<close> is
  \<^verbatim>\<open>+Infinity\<close>), \<^verbatim>\<open>maxT\<close>, \<^verbatim>\<open>prevEdgeT\<close> and \<^verbatim>\<open>prevAmt\<close> (\<open>None\<close> is \<^verbatim>\<open>null\<close>); the result
  \<open>None\<close> is \<^verbatim>\<open>ok = false\<close>.
\<close>

fun edgeWalk ::
  "Graph \<Rightarrow> (string \<times> string) list \<Rightarrow> int option \<times> int \<times> int option \<times> rat option
    \<Rightarrow> (int option \<times> int \<times> int option \<times> rat option) option" where
  "edgeWalk g [] s = Some s"
| "edgeWalk g ((a, b) # es) (minT, maxT, prevEdgeT, prevAmt) =
     (case edgeTx g (edgeKey a b) of
        None \<Rightarrow> None
      | Some arr \<Rightarrow>
          if arr = [] then None
          else (let edgeT = t_sec (hd arr);
                    amt = edgeMedianAmount g a b;
                    minT' = (case minT of None \<Rightarrow> edgeT | Some m \<Rightarrow> min m edgeT);
                    maxT' = max maxT (t_sec (last arr))
                in if (case prevEdgeT of
                         Some p \<Rightarrow> edgeT + 3600 < p \<or> \<bar>edgeT - p\<bar> > 24 * 3600
                       | None \<Rightarrow> False) then None
                   else if (case prevAmt of
                              Some pa \<Rightarrow> amt > 0 \<and> pa > 0 \<and>
                                (if amt > pa then amt / pa else pa / amt) > 135 / 100
                            | None \<Rightarrow> False) then None
                   else edgeWalk g es (Some minT', maxT', Some edgeT, Some amt)))"

definition pathEdges :: "string list \<Rightarrow> (string \<times> string) list" where
  "pathEdges path = map (\<lambda>i. (path ! i, path ! (i + 1))) [0..<length path - 1]"

text \<open>The evidence tags of an emitted chain.\<close>

definition shellEvidence :: "string list \<Rightarrow> (string \<times> string list) list \<Rightarrow> (string \<times> string list) list" where
  "shellEvidence path ev =
     (let n = length path;
          ev1 = addEvidence (path ! 0) ''source_funds'' (addEvidence (path ! 0) ''layered_shell_chain'' ev);
          ev2 = fold (\<lambda>i e. addEvidence (path ! i) ''low_activity_shell''
                               (addEvidence (path ! i) ''layered_shell_chain'' e))
                  [1..<n - 2] ev1;
          ev3 = addEvidence (path ! (n - 2)) ''pre_cashout''
                  (addEvidence (path ! (n - 2)) ''layered_shell_chain'' ev2)
      in addEvidence (path ! (n - 1)) ''cash_out''
           (addEvidence (path ! (n - 1)) ''layered_shell_chain'' ev3))"

text \<open>The acceptance block, run when the extended path has at least 3 edges.\<close>

definition acceptChain :: "Graph \<Rightarrow> string list \<Rightarrow> nat \<Rightarrow> Detection \<Rightarrow> Detection" where
  "acceptChain g path nextDepth st =
     (if \<not> intermediatesOk g path then st
      else case edgeWalk g (pathEdges path) (None, 0, None, None) of
             None \<Rightarrow> st
           | Some (minT, maxT, prevEdgeT, prevAmt) \<Rightarrow>
               (let sig = ''layered_shell|'' @ join ''->'' path
                in if sig \<in> det_seen st then st
                   else (let span = spanOf (minT, maxT);
                             ring = \<lparr>pattern_type = ''layered_shell'', member_accounts = path,
                                     risk_score = toFixed 1 (chainRisk nextDepth span)\<rparr>
                         in st\<lparr>det_rings := det_rings st @ [ring],
                                det_evidence := shellEvidence path (det_evidence st),
                                det_seen := insert sig (det_seen st),
                                det_found := det_found st + 1\<rparr>)))"

text \<open>
  The two tests of the loop body that skip a successor: it is visited already, or it is
  the first hop (\<^verbatim>\<open>nextDepth < 2\<close>) and not low. The DFS extends the path by every other
  successor.
\<close>

definition extends :: "Graph \<Rightarrow> string set \<Rightarrow> nat \<Rightarrow> string \<Rightarrow> bool" where
  "extends g visited nextDepth v \<longleftrightarrow> \<not> (v \<in> visited) \<and> \<not> (nextDepth < 2 \<and> \<not> low g v)"

function dfsShell ::
    "Graph \<Rightarrow> string list \<Rightarrow> string set \<Rightarrow> string \<Rightarrow> nat \<Rightarrow> Detection \<Rightarrow> Detection"
  and dfsShellLoop ::
    "Graph \<Rightarrow> string list \<Rightarrow> string set \<Rightarrow> nat \<Rightarrow> string list \<Rightarrow> Detection \<Rightarrow> Detection" where
  "dfsShell g path visited u depthEdges st =
     (if det_found st \<ge> 25 then st
      else if depthEdges > 6 then st
      else case outNeighbors g u of
             None \<Rightarrow> st
           | Some nbrs \<Rightarrow> dfsShellLoop g path visited depthEdges nbrs st)"
| "dfsShellLoop g path visited depthEdges [] st = st"
| "dfsShellLoop g path visited depthEdges (v # vs) st =
     (if det_found st \<ge> 25 then st
      else if \<not> extends g visited (depthEdges + 1) v then dfsShellLoop g path visited depthEdges vs st
      else
        dfsShellLoop g path visited depthEdges vs
          (dfsShell g (path @ [v]) (insert v visited) v (depthEdges + 1)
             (if depthEdges + 1 \<ge> 3 then acceptChain g (path @ [v]) (depthEdges + 1) st else st)))"
  by pat_completeness auto
termination
  by (relation "inv_image (less_than <*lex*> less_than <*lex*> less_than)
        (\<lambda>x. case x of
           Inl (g, path, visited, u, depthEdges, st) \<Rightarrow>
             (if depthEdges > 6 then (0, 0, 0) else (7 - depthEdges, 1, 0))
         | Inr (g, path, visited, depthEdges, vs, st) \<Rightarrow>
             (7 - depthEdges, 0, length vs + 1))")
     auto

definition detectShellChains :: "Graph \<Rightarrow> Detection" where
  "detectShellChains g =
     fold (\<lambda>start st. dfsShell g [start] {start} start 0 (st\<lparr>det_found := 0\<rparr>))
       (sort (nodes g)) emptyDetection"

section \<open>Smurfing detector (detect/smurfing.ts)\<close>

definition WINDOW_SEC :: int where
  "WINDOW_SEC = 72 * 3600"

definition MIN_UNIQUE :: nat where
  "MIN_UNIQUE = 10"

definition median :: "rat list \<Rightarrow> rat" where
  "median nums =
     (if nums = [] then 0
      else (let a = sort nums; mid = length a div 2
            in if length a mod 2 \<noteq> 0 then a ! mid else (a ! (mid - 1) + a ! mid) / 2))"

definition amountConsistency :: "rat list \<Rightarrow> rat \<Rightarrow> rat" where
  "amountConsistency amts tol =
     (if length amts < 6 then 0
      else (let med = median amts;
                band = max 1 (med * tol);
                close = length (filter (\<lambda>x. \<bar>x - med\<bar> \<le> band) amts)
            in of_nat close / of_nat (max 1 (length amts))))"

text \<open>
  \<^verbatim>\<open>WindowHit\<close>; its fields carry the prefix \<open>w_\<close> (\<^verbatim>\<open>l\<close>, \<^verbatim>\<open>r\<close>, \<^verbatim>\<open>minT\<close> and \<^verbatim>\<open>maxT\<close> are
  also names of local variables).
\<close>

record WindowHit =
  w_l :: nat
  w_r :: nat
  w_uniq :: nat
  w_minT :: int
  w_maxT :: int
  w_counterparties :: "string list"
  w_amounts :: "rat list"

text \<open>
  The inner \<^verbatim>\<open>while\<close> loop of \<^verbatim>\<open>bestUniqueWindow\<close>, which moves \<^verbatim>\<open>l\<close> up while the window is
  longer than 72 hours. \<^verbatim>\<open>counts\<close> is a map whose \<^verbatim>\<open>size\<close> is read, so it is an association
  list; \<^verbatim>\<open>cpInWindow[l]\<close> holds the counterparty of \<^verbatim>\<open>list[l]\<close>. The loop test is false at
  \<open>l = r\<close>, where the difference is 0; the guard \<open>l < r\<close> states it for the recursion.
\<close>

function shrinkWindow ::
  "Tx list \<Rightarrow> (Tx \<Rightarrow> string) \<Rightarrow> nat \<Rightarrow> nat \<Rightarrow> (string \<times> nat) list \<Rightarrow> nat \<times> (string \<times> nat) list" where
  "shrinkWindow list getCounterparty r l counts =
     (if l < r \<and> t_sec (list ! r) - t_sec (list ! l) > WINDOW_SEC then
        (let cpl = getCounterparty (list ! l);
             v = int (case map_of counts cpl of Some c \<Rightarrow> c | None \<Rightarrow> 0) - 1
         in shrinkWindow list getCounterparty r (l + 1)
              (if v \<le> 0 then AList.delete cpl counts else AList.update cpl (nat v) counts))
      else (l, counts))"
  by pat_completeness auto
termination
  by (relation "measure (\<lambda>(list, getCounterparty, r, l, counts). r - l)") auto

declare shrinkWindow.simps [simp del]

text \<open>The body of the \<^verbatim>\<open>for\<close> loop over \<^verbatim>\<open>r\<close>; the state is \<^verbatim>\<open>(l, counts, best)\<close>.\<close>

definition windowStep ::
  "Tx list \<Rightarrow> (Tx \<Rightarrow> string) \<Rightarrow> nat \<Rightarrow> nat \<times> (string \<times> nat) list \<times> WindowHit option
    \<Rightarrow> nat \<times> (string \<times> nat) list \<times> WindowHit option" where
  "windowStep list getCounterparty r s =
     (let l0 = fst s; counts0 = fst (snd s); best = snd (snd s);
          cp = getCounterparty (list ! r);
          counts1 = AList.update cp ((case map_of counts0 cp of Some c \<Rightarrow> c | None \<Rightarrow> 0) + 1) counts0;
          lc = shrinkWindow list getCounterparty r l0 counts1;
          l = fst lc; counts = snd lc;
          u = length counts
      in if u \<ge> MIN_UNIQUE then
           (let minT = t_sec (list ! l); maxT = t_sec (list ! r)
            in if (case best of
                     None \<Rightarrow> True
                   | Some b \<Rightarrow> u > w_uniq b \<or> (u = w_uniq b \<and> maxT - minT < w_maxT b - w_minT b))
               then (let window = take (r + 1 - l) (drop l list)
                     in (l, counts,
                         Some \<lparr>w_l = l, w_r = r, w_uniq = u, w_minT = minT, w_maxT = maxT,
                               w_counterparties = new_Set (map getCounterparty window),
                               w_amounts = map amount window\<rparr>))
               else (l, counts, best))
         else (l, counts, best))"

definition bestUniqueWindow :: "Tx list \<Rightarrow> (Tx \<Rightarrow> string) \<Rightarrow> WindowHit option" where
  "bestUniqueWindow list getCounterparty =
     (if list = [] then None
      else snd (snd (fold (windowStep list getCounterparty) [0..<length list] (0, [], None))))"

text \<open>
  The tests of the loop over the hubs, up to the amount signature: \<open>None\<close> is a
  \<^verbatim>\<open>continue\<close>, otherwise the two windows.
\<close>

definition hubWindows :: "Graph \<Rightarrow> string \<Rightarrow> (WindowHit \<times> WindowHit) option" where
  "hubWindows g hub =
     (let inTx = (case txIn g hub of Some a \<Rightarrow> a | None \<Rightarrow> []);
          outTx = (case txOut g hub of Some a \<Rightarrow> a | None \<Rightarrow> [])
      in if length inTx < MIN_UNIQUE \<or> length outTx < MIN_UNIQUE then None
         else case bestUniqueWindow inTx sender_id of
                None \<Rightarrow> None
              | Some bestIn \<Rightarrow>
                  (case bestUniqueWindow outTx receiver_id of
                     None \<Rightarrow> None
                   | Some bestOut \<Rightarrow>
                       (let minT = min (w_minT bestIn) (w_minT bestOut);
                            maxT = max (w_maxT bestIn) (w_maxT bestOut)
                        in if maxT - minT > WINDOW_SEC then None
                           else (let inCons = amountConsistency (w_amounts bestIn) (8 / 100);
                                     outCons = amountConsistency (w_amounts bestOut) (8 / 100);
                                     strongAmountSignature = (inCons \<ge> 5 / 10 \<or> outCons \<ge> 45 / 100)
                                 in if \<not> strongAmountSignature then None
                                    else Some (bestIn, bestOut)))))"

text \<open>
  The loop that looks for the cash-out node; the state is \<^verbatim>\<open>(cashout, bestCashU)\<close>.
  \<open>cashCount\<close> is the size of \<^verbatim>\<open>uniqSenders\<close> for a candidate.
\<close>

definition cashCount :: "Graph \<Rightarrow> string list \<Rightarrow> int \<Rightarrow> int \<Rightarrow> string \<Rightarrow> nat" where
  "cashCount g receivers minT maxT cand =
     (let inToCand = (case txIn g cand of Some a \<Rightarrow> a | None \<Rightarrow> [])
      in length (new_Set (map sender_id
           (filter (\<lambda>tx. \<not> (t_sec tx < minT \<or> t_sec tx > maxT) \<and> sender_id tx \<in> set receivers)
              inToCand))))"

definition cashStep ::
  "Graph \<Rightarrow> string list \<Rightarrow> int \<Rightarrow> int \<Rightarrow> string \<Rightarrow> string option \<times> nat \<Rightarrow> string option \<times> nat" where
  "cashStep g receivers minT maxT cand s =
     (let inToCand = (case txIn g cand of Some a \<Rightarrow> a | None \<Rightarrow> [])
      in if length inToCand < MIN_UNIQUE then s
         else (let u = cashCount g receivers minT maxT cand
               in if u \<ge> MIN_UNIQUE then
                    (let outCount = length (case txOut g cand of Some a \<Rightarrow> a | None \<Rightarrow> [])
                     in if outCount \<le> 2 then (if u > snd s then (Some cand, u) else s) else s)
                  else s))"

definition pickCashout :: "Graph \<Rightarrow> string list \<Rightarrow> int \<Rightarrow> int \<Rightarrow> string option" where
  "pickCashout g receivers minT maxT = fst (fold (cashStep g receivers minT maxT) (nodes g) (None, 0))"

text \<open>The truth value of \<^verbatim>\<open>cashout\<close> in a condition: neither \<^verbatim>\<open>null\<close> nor the empty string.\<close>

definition truthy :: "string option \<Rightarrow> bool" where
  "truthy c = (case c of None \<Rightarrow> False | Some s \<Rightarrow> s \<noteq> [])"

definition smurfMembers :: "string \<Rightarrow> string list \<Rightarrow> string list \<Rightarrow> string option \<Rightarrow> string list" where
  "smurfMembers hub senders receivers cashout =
     (let senderList = sort senders; receiverList = sort receivers;
          member_accounts = [hub] @ senderList @ receiverList
      in if truthy cashout \<and> \<not> (the cashout \<in> set member_accounts)
         then member_accounts @ [the cashout] else member_accounts)"

definition smurfRisk :: "nat \<Rightarrow> nat \<Rightarrow> rat \<Rightarrow> rat \<Rightarrow> string option \<Rightarrow> rat" where
  "smurfRisk nSenders nReceivers inCons outCons cashout =
     (let sizeScore = 70 + (12 / 10) * of_nat nSenders + (12 / 10) * of_nat nReceivers;
          amtBonus = 6 * max inCons outCons;
          cashBonus = (if truthy cashout then 4 else 0)
      in toFixed 1 (clamp (sizeScore + amtBonus + cashBonus)))"

definition smurfEvidence ::
  "string \<Rightarrow> string list \<Rightarrow> string list \<Rightarrow> string option \<Rightarrow> (string \<times> string list) list
    \<Rightarrow> (string \<times> string list) list" where
  "smurfEvidence hub senders receivers cashout ev =
     (let ev1 = addEvidence hub ''temporal_72h''
                  (addEvidence hub ''smurfing_fan_out'' (addEvidence hub ''smurfing_fan_in'' ev));
          ev2 = fold (\<lambda>s e. addEvidence s ''temporal_72h'' (addEvidence s ''smurfing_fan_in'' e))
                  senders ev1;
          ev3 = fold (\<lambda>r e. addEvidence r ''temporal_72h'' (addEvidence r ''smurfing_fan_out'' e))
                  receivers ev2
      in if truthy cashout then
           addEvidence (the cashout) ''cash_out''
             (addEvidence (the cashout) ''temporal_72h''
                (addEvidence (the cashout) ''smurfing_fan_out'' ev3))
         else ev3)"

text \<open>The ring a hub yields once its two windows have passed the tests.\<close>

definition hubCashout :: "Graph \<Rightarrow> WindowHit \<Rightarrow> WindowHit \<Rightarrow> string option" where
  "hubCashout g bestIn bestOut =
     pickCashout g (w_counterparties bestOut)
       (min (w_minT bestIn) (w_minT bestOut)) (max (w_maxT bestIn) (w_maxT bestOut))"

definition smurfRing :: "Graph \<Rightarrow> string \<Rightarrow> WindowHit \<Rightarrow> WindowHit \<Rightarrow> RingCandidate" where
  "smurfRing g hub bestIn bestOut =
     (let senders = w_counterparties bestIn; receivers = w_counterparties bestOut;
          inCons = amountConsistency (w_amounts bestIn) (8 / 100);
          outCons = amountConsistency (w_amounts bestOut) (8 / 100);
          cashout = hubCashout g bestIn bestOut
      in \<lparr>pattern_type = ''smurfing'',
          member_accounts = smurfMembers hub senders receivers cashout,
          risk_score = smurfRisk (length senders) (length receivers) inCons outCons cashout\<rparr>)"

text \<open>The body of the loop over the hubs, and the detector.\<close>

definition smurfHub :: "Graph \<Rightarrow> string \<Rightarrow> Detection \<Rightarrow> Detection" where
  "smurfHub g hub st =
     (case hubWindows g hub of
        None \<Rightarrow> st
      | Some w \<Rightarrow>
          st\<lparr>det_rings := det_rings st @ [smurfRing g hub (fst w) (snd w)],
             det_evidence :=
               smurfEvidence hub (w_counterparties (fst w)) (w_counterparties (snd w))
                 (hubCashout g (fst w) (snd w)) (det_evidence st)\<rparr>)"

definition detectSmurfing :: "Graph \<Rightarrow> Detection" where
  "detectSmurfing g = fold (smurfHub g) (nodes g) emptyDetection"

text \<open>What every emitted shell chain satisfies.\<close>

definition shell_ring :: "Graph \<Rightarrow> RingCandidate \<Rightarrow> bool" where
  "shell_ring g r \<longleftrightarrow>
     pattern_type r = ''layered_shell'' \<and>
     4 \<le> length (member_accounts r) \<and> length (member_accounts r) \<le> 8 \<and>
     distinct (member_accounts r) \<and>
     list_all (\<lambda>i. low g (member_accounts r ! i) \<and>
                    indeg g (member_accounts r ! i) = 1 \<and> outdeg g (member_accounts r ! i) = 1)
       [1..<length (member_accounts r) - 1]"

text \<open>
  A cash-out candidate: at least \<^verbatim>\<open>MIN_UNIQUE\<close> unique senders among the receivers inside
  the window, and an out-list of length at most 2.
\<close>

definition cashCandidate :: "Graph \<Rightarrow> string list \<Rightarrow> int \<Rightarrow> int \<Rightarrow> string \<Rightarrow> bool" where
  "cashCandidate g receivers lo hi c \<longleftrightarrow>
     cashCount g receivers lo hi c \<ge> MIN_UNIQUE \<and>
     length (case txOut g c of Some a \<Rightarrow> a | None \<Rightarrow> []) \<le> 2"

text \<open>
  The choice among the nodes \<open>ns\<close> in iteration order: \<open>None\<close> when no node is a
  candidate; otherwise the first candidate whose count no candidate exceeds.
\<close>

definition first_best :: "Graph \<Rightarrow> string list \<Rightarrow> int \<Rightarrow> int \<Rightarrow> string list \<Rightarrow> string option \<Rightarrow> bool" where
  "first_best g receivers lo hi ns choice \<longleftrightarrow>
     (case choice of
        None \<Rightarrow> list_all (\<lambda>c. \<not> cashCandidate g receivers lo hi c) ns
      | Some c \<Rightarrow>
          cashCandidate g receivers lo hi c \<and>
          (\<exists>pre post. ns = pre @ c # post \<and>
             list_all (\<lambda>c'. \<not> cashCandidate g receivers lo hi c' \<or>
                             cashCount g receivers lo hi c' < cashCount g receivers lo hi c) pre \<and>
             list_all (\<lambda>c'. \<not> cashCandidate g receivers lo hi c' \<or>
                             cashCount g receivers lo hi c' \<le> cashCount g receivers lo hi c) post))"

text \<open>The invariant of the cash-out loop after the nodes \<open>ns\<close>.\<close>

definition cash_inv :: "Graph \<Rightarrow> string list \<Rightarrow> int \<Rightarrow> int \<Rightarrow> string list \<Rightarrow> string option \<times> nat \<Rightarrow> bool" where
  "cash_inv g receivers lo hi ns s \<longleftrightarrow>
     first_best g receivers lo hi ns (fst s) \<and>
     snd s = (case fst s of None \<Rightarrow> 0 | Some c \<Rightarrow> cashCount g receivers lo hi c)"

text \<open>A ring that one of the hubs yields.\<close>

definition smurf_origin :: "Graph \<Rightarrow> string list \<Rightarrow> RingCandidate \<Rightarrow> bool" where
  "smurf_origin g hubs r \<longleftrightarrow>
     (\<exists>hub w. hub \<in> set hubs \<and> hubWindows g hub = Some w \<and> r = smurfRing g hub (fst w) (snd w))"

section \<open>Scorer (score.ts)\<close>

text \<open>
  \<^verbatim>\<open>initAccountScores\<close>: one entry per node, in the iteration order of the node set.
\<close>

definition initAccountScores :: "string list \<Rightarrow> (string \<times> AccountScoreState) list" where
  "initAccountScores ns =
     fold (\<lambda>n m. AList.update n \<lparr>score = 0, patterns = [], ringId = None\<rparr> m) ns []"

text \<open>
  \<^verbatim>\<open>stableJitter01\<close>: FNV-1a over the code units, in 32-bit arithmetic (\<^verbatim>\<open>Math.imul\<close>, and
  \<^verbatim>\<open>>>> 0\<close> for the unsigned value).
\<close>

definition stableJitter01 :: "string \<Rightarrow> rat" where
  "stableJitter01 s =
     (let h = fold (\<lambda>c h. (h XOR word_of_nat (of_char c)) * 16777619) s (2166136261 :: 32 word)
      in rat_of_int (uint h) / 2 ^ 32)"

definition adjustRingRisks :: "Graph \<Rightarrow> RingCandidate list \<Rightarrow> RingCandidate list" where
  "adjustRingRisks g rs = rs"

text \<open>The map \<^verbatim>\<open>bestRingByAccount\<close>, which is only looked up.\<close>

definition bestRingByAccount :: "RingCandidate list \<Rightarrow> (string \<rightharpoonup> RingCandidate)" where
  "bestRingByAccount rs =
     fold (\<lambda>r m. fold (\<lambda>a m. (case m a of
                                  None \<Rightarrow> m(a \<mapsto> r)
                                | Some prev \<Rightarrow> if risk_score r > risk_score prev then m(a \<mapsto> r) else m))
                   (member_accounts r) m)
       rs Map.empty"

text \<open>The score of an account from its best ring, by role, before rounding.\<close>

definition roleScore :: "string \<Rightarrow> RingCandidate \<Rightarrow> string list \<Rightarrow> rat" where
  "roleScore acct ring pats =
     (let jitter = (stableJitter01 (acct @ ''|'' @ pattern_type ring) - 5 / 10) * (8 / 10)
      in if pattern_type ring = ''cycle'' then risk_score ring - 31 / 10 + jitter
         else if pattern_type ring = ''smurfing'' then
           (let isHub = (\<not> member_accounts ring = [] \<and> hd (member_accounts ring) = acct);
                isCashout = (''cash_out'' \<in> set pats)
            in if isHub then risk_score ring + 28 / 10
               else if isCashout then risk_score ring + 17 / 10
               else if ''smurfing_fan_out'' \<in> set pats then risk_score ring - 59 / 10 + jitter
               else if ''smurfing_fan_in'' \<in> set pats then risk_score ring - 164 / 10 + jitter
               else risk_score ring - 10 + jitter)
         else if pattern_type ring = ''layered_shell'' then
           (if ''cash_out'' \<in> set pats then risk_score ring + 22 / 10
            else if ''low_activity_shell'' \<in> set pats then risk_score ring + 4 / 10 + jitter
            else if ''pre_cashout'' \<in> set pats then risk_score ring - 17 / 10 + jitter
            else if ''source_funds'' \<in> set pats then risk_score ring - 54 / 10 + jitter
            else risk_score ring - 1 + jitter)
         else risk_score ring)"

text \<open>The body of the loop over the entries of \<^verbatim>\<open>accountScores\<close>.\<close>

definition scoreAccount ::
  "(string \<rightharpoonup> RingCandidate) \<Rightarrow> (string \<times> string list) list \<Rightarrow> string \<times> AccountScoreState
    \<Rightarrow> string \<times> AccountScoreState" where
  "scoreAccount best evidence e =
     (case best (fst e) of
        None \<Rightarrow> e
      | Some ring \<Rightarrow>
          (let pats = (case map_of evidence (fst e) of
                         Some basePats \<Rightarrow> fold (\<lambda>p s. Set_add s p) basePats (patterns (snd e))
                       | None \<Rightarrow> patterns (snd e))
           in (fst e, \<lparr>score = clamp (toFixed 1 (roleScore (fst e) ring pats)),
                      patterns = pats, ringId = None\<rparr>)))"

definition applyWinModeScoring ::
  "Graph \<Rightarrow> RingCandidate list \<Rightarrow> (string \<times> string list) list \<Rightarrow> (string \<times> AccountScoreState) list
    \<Rightarrow> (string \<times> AccountScoreState) list" where
  "applyWinModeScoring g rs evidence accountScores =
     map (scoreAccount (bestRingByAccount rs) evidence) accountScores"

section \<open>The pipeline (app/api/analyze/route.ts)\<close>

text \<open>The closure \<^verbatim>\<open>mergeEv\<close>: the union of a detector's evidence into the pipeline's map.\<close>

definition mergeEv :: "(string \<times> string list) list \<Rightarrow> (string \<times> string list) list \<Rightarrow> (string \<times> string list) list" where
  "mergeEv m ev =
     fold (\<lambda>e ev. (let cur = (case map_of ev (fst e) of Some c \<Rightarrow> c | None \<Rightarrow> [])
                    in AList.update (fst e) (fold (\<lambda>p c. Set_add c p) (snd e) cur) ev))
       m ev"

text \<open>
  The handler \<^verbatim>\<open>POST\<close> from the parsed transactions on. The two readings of \<^verbatim>\<open>Date.now()\<close>
  (milliseconds) are the inputs \<open>t0\<close> and \<open>t1\<close>; the reading of the request and the CSV
  parser are outside the model.
\<close>

definition analyze :: "collation \<Rightarrow> int \<Rightarrow> int \<Rightarrow> Tx list \<Rightarrow> OutputJSON" where
  "analyze lc t0 t1 txs =
     (let g = buildGraph txs;
          smurf = detectSmurfing g;
          cycles = detectCycles35 g;
          shells = detectShellChains g;
          rings0 = det_rings smurf @ det_rings cycles @ det_rings shells;
          evidenceByAccount =
            mergeEv (det_evidence shells) (mergeEv (det_evidence cycles) (mergeEv (det_evidence smurf) []));
          rings1 = adjustRingRisks g rings0;
          rings2 = mergeRings rings1 (6 / 10);
          accountScores = applyWinModeScoring g rings2 evidenceByAccount (initAccountScores (nodes g));
          processingSeconds = (rat_of_int (t1 - t0) / 1000 :: rat)
      in buildDeterministicOutput lc (nodes g) rings2 accountScores processingSeconds)"


section \<open>Concrete inputs\<close>

text \<open>
  Three cycle candidates over the accounts \<open>a\<close>, \<open>b\<close>, \<open>c\<close>, \<open>d\<close>: the 3-cycle \<open>a b c\<close>
  (loose in time), the 4-cycle \<open>a b c d\<close> and the 3-cycle \<open>b c d\<close> (both tight).
\<close>

definition ex_rings :: "RingCandidate list" where
  "ex_rings =
     [\<lparr>pattern_type = ''cycle'', member_accounts = [''a'', ''b'', ''c''], risk_score = 893 / 10\<rparr>,
      \<lparr>pattern_type = ''cycle'', member_accounts = [''a'', ''b'', ''c'', ''d''], risk_score = 977 / 10\<rparr>,
      \<lparr>pattern_type = ''cycle'', member_accounts = [''b'', ''c'', ''d''], risk_score = 993 / 10\<rparr>]"

text \<open>
  A score map: \<open>a\<close> rounds to 59.9 and \<open>c\<close> to 60.0; \<open>b\<close> and \<open>d\<close> tie; \<open>e\<close> has no tag.
\<close>

definition ex_scores :: "(string \<times> AccountScoreState) list" where
  "ex_scores =
     [(''a'', \<lparr>score = 5994 / 100, patterns = [''cycle''], ringId = None\<rparr>),
      (''d'', \<lparr>score = 962 / 10, patterns = [''cycle'', ''cycle_length_3''], ringId = None\<rparr>),
      (''c'', \<lparr>score = 5995 / 100, patterns = [''cycle''], ringId = None\<rparr>),
      (''b'', \<lparr>score = 962 / 10, patterns = [''cycle_length_4'', ''cycle''], ringId = None\<rparr>),
      (''e'', \<lparr>score = 99, patterns = [], ringId = None\<rparr>)]"

text \<open>Five candidates of three pattern types; two of the cycles have one signature.\<close>

definition ex_rings2 :: "RingCandidate list" where
  "ex_rings2 =
     [\<lparr>pattern_type = ''layered_shell'', member_accounts = [''s'', ''x'', ''y'', ''t''], risk_score = 815 / 10\<rparr>,
      \<lparr>pattern_type = ''smurfing'', member_accounts = [''h'', ''p'', ''q'', ''p''], risk_score = 80\<rparr>,
      \<lparr>pattern_type = ''cycle'', member_accounts = [''c'', ''a'', ''b''], risk_score = 90\<rparr>,
      \<lparr>pattern_type = ''cycle'', member_accounts = [''b'', ''c'', ''d''], risk_score = 9326 / 100\<rparr>,
      \<lparr>pattern_type = ''cycle'', member_accounts = [''a'', ''b'', ''c''], risk_score = 95\<rparr>]"

text \<open>
  Six transactions over \<open>a\<close>, \<open>b\<close>, \<open>c\<close>, \<open>d\<close>: the edge \<open>c \<rightarrow> a\<close> is a day older than the
  others, which lie within a minute.
\<close>

definition ex_cycle_txs :: "Tx list" where
  "ex_cycle_txs =
     [mkTx ''c'' ''a'' 50 0,
      mkTx ''a'' ''b'' 50 100000,
      mkTx ''b'' ''c'' 50 100010,
      mkTx ''c'' ''d'' 50 100020,
      mkTx ''d'' ''a'' 50 100030,
      mkTx ''d'' ''b'' 50 100040]"


text \<open>
  A hub \<open>h\<close> with ten senders and ten receivers; every receiver forwards to \<open>z\<close> and then
  to \<open>k\<close>; the last sender pays at the end.
\<close>

definition ex_smurf_txs :: "Tx list" where
  "ex_smurf_txs =
     map (\<lambda>i. mkTx (''s'' @ String_of_nat i) ''h'' 100 (int i)) [0..<9] @
     map (\<lambda>i. mkTx ''h'' (''r'' @ String_of_nat i) 100 (10 + int i)) [0..<10] @
     map (\<lambda>i. mkTx (''r'' @ String_of_nat i) ''z'' 100 (20 + int i)) [0..<10] @
     map (\<lambda>i. mkTx (''r'' @ String_of_nat i) ''k'' 100 (30 + int i)) [0..<10] @
     [mkTx ''s9'' ''h'' 100 40]"

text \<open>
  A hub \<open>h\<close> with ten senders and ten receivers, where \<open>s0\<close> is both a sender and a
  receiver.
\<close>

definition ex_smurf2_txs :: "Tx list" where
  "ex_smurf2_txs =
     map (\<lambda>i. mkTx (''s'' @ String_of_nat i) ''h'' 100 (int i)) [0..<10] @
     [mkTx ''h'' ''s0'' 100 10] @
     map (\<lambda>i. mkTx ''h'' (''r'' @ String_of_nat i) 100 (10 + int i)) [1..<10]"

text \<open>A self-loop and a two-node back-and-forth pair.\<close>

definition ex_loop_txs :: "Tx list" where
  "ex_loop_txs = [mkTx ''a'' ''a'' 10 0, mkTx ''a'' ''b'' 10 60, mkTx ''b'' ''a'' 10 120]"



section \<open>Properties of the ring merger\<close>

lemma remaining_step:
  "i < length rings \<Longrightarrow>
   remaining rings used i =
     (if used ! i then remaining rings used (i + 1) else rings ! i # remaining rings used (i + 1))"
  by (simp add: remaining_def upt_conv_Cons)

lemma remaining_end: "length rings \<le> i \<Longrightarrow> remaining rings used i = []"
  by (simp add: remaining_def)

lemma remaining_cong:
  "(\<And>k. i \<le> k \<Longrightarrow> k < length rings \<Longrightarrow> used ! k = used' ! k) \<Longrightarrow>
   remaining rings used i = remaining rings used' i"
  unfolding remaining_def
  by (rule arg_cong[where f = "map (\<lambda>k. rings ! k)"]) (rule filter_cong, auto)

lemma mergeInner_fold:
  assumes "length used = length rings"
  shows "j \<le> length rings \<Longrightarrow>
     (let res = fold (mergeInner rings base members J) [j..<length rings] (used, best);
          ab = absorb base members J best (remaining rings used j)
      in snd res = fst ab \<and> remaining rings (fst res) j = snd ab \<and>
         length (fst res) = length rings \<and> (\<forall>k < j. fst res ! k = used ! k))"
  using assms
proof (induction "length rings - j" arbitrary: j used best)
  case 0
  then have "j = length rings" by simp
  then show ?case using "0.prems" by (simp add: remaining_end)
next
  case (Suc d)
  then have jl: "j < length rings" by simp
  have up: "[j..<length rings] = j # [j + 1..<length rings]"
    using jl by (simp add: upt_conv_Cons)
  define s1 where "s1 = mergeInner rings base members J j (used, best)"
  have len1: "length (fst s1) = length rings"
    using Suc.prems by (simp add: s1_def mergeInner_def Let_def)
  have d: "d = length rings - (j + 1)" using Suc.hyps(2) by simp
  have j1: "j + 1 \<le> length rings" using jl by simp
  note ih = Suc.hyps(1)[OF d j1 len1, of "snd s1", unfolded Let_def]
  have f: "fold (mergeInner rings base members J) [j..<length rings] (used, best) =
           fold (mergeInner rings base members J) [j + 1..<length rings] (fst s1, snd s1)"
    unfolding up by (simp add: s1_def)
  let ?res = "fold (mergeInner rings base members J) [j + 1..<length rings] (fst s1, snd s1)"
  have keepj: "fst ?res ! j = fst s1 ! j" using ih by simp
  have rem_res: "remaining rings (fst ?res) j =
      (if fst s1 ! j then remaining rings (fst ?res) (j + 1)
       else rings ! j # remaining rings (fst ?res) (j + 1))"
    using remaining_step[OF jl, of "fst ?res"] keepj by simp
  have low: "\<forall>k < j. fst ?res ! k = fst s1 ! k" using ih by simp
  show ?case
  proof (cases "used ! j")
    case True
    then have s1: "s1 = (used, best)" by (simp add: s1_def mergeInner_def)
    show ?thesis
      unfolding Let_def f
      using ih rem_res True remaining_step[OF jl, of used] by (simp add: s1)
  next
    case nu: False
    show ?thesis
    proof (cases "merged base members J (rings ! j)")
      case False
      then have s1: "s1 = (used, best)"
        using nu by (auto simp: s1_def mergeInner_def merged_def Let_def)
      show ?thesis
        unfolding Let_def f
        using ih rem_res nu False remaining_step[OF jl, of used]
        by (auto simp: s1 merged_def Let_def)
    next
      case True
      then have s1: "s1 = (used[j := True],
          (if risk_score (rings ! j) > fst best then (risk_score (rings ! j), member_accounts (rings ! j)) else best))"
        using nu by (auto simp: s1_def mergeInner_def merged_def Let_def)
      have r1: "remaining rings (used[j := True]) (j + 1) = remaining rings used (j + 1)"
        by (rule remaining_cong) simp
      have sj: "fst s1 ! j" using s1 jl Suc.prems by simp
      have lowu: "\<forall>k < j. fst s1 ! k = used ! k" using s1 by simp
      show ?thesis
        unfolding Let_def f
        using ih rem_res nu True remaining_step[OF jl, of used] sj r1 lowu low
        by (simp add: s1 merged_def)
    qed
  qed
qed

lemma mergeOuter_fold:
  "i \<le> length rings \<Longrightarrow> length used = length rings \<Longrightarrow>
   snd (fold (mergeOuter rings J) [i..<length rings] (used, out)) =
     out @ mergeUnused (remaining rings used i) J"
proof (induction "length rings - i" arbitrary: i used out)
  case 0
  then have "i = length rings" by simp
  then show ?case by (simp add: remaining_end)
next
  case (Suc d)
  then have il: "i < length rings" by simp
  have up: "[i..<length rings] = i # [i + 1..<length rings]"
    using il by (simp add: upt_conv_Cons)
  have d: "d = length rings - (i + 1)" using Suc.hyps(2) by simp
  have i1: "i + 1 \<le> length rings" using il by simp
  show ?case
  proof (cases "used ! i")
    case True
    then have "mergeOuter rings J i (used, out) = (used, out)"
      by (simp add: mergeOuter_def)
    then show ?thesis
      unfolding up
      using Suc.hyps(1)[OF d i1 Suc.prems(2), of out] True remaining_step[OF il, of used]
      by simp
  next
    case False
    let ?base = "rings ! i"
    let ?members = "new_Set (member_accounts ?base)"
    let ?best = "(risk_score ?base, member_accounts ?base)"
    let ?res = "fold (mergeInner rings ?base ?members J) [i + 1..<length rings] (used, ?best)"
    let ?ab = "absorb ?base ?members J ?best (remaining rings used (i + 1))"
    let ?ring = "?base\<lparr>member_accounts := snd (snd ?res), risk_score := fst (snd ?res)\<rparr>"
    from mergeInner_fold[where base = ?base and members = ?members and J = J and best = ?best,
        OF Suc.prems(2) i1, unfolded Let_def]
    have b: "snd ?res = fst ?ab" and r: "remaining rings (fst ?res) (i + 1) = snd ?ab"
      and l: "length (fst ?res) = length rings"
      by simp_all
    have step: "mergeOuter rings J i (used, out) = (fst ?res, out @ [?ring])"
      using False by (simp add: mergeOuter_def Let_def)
    have "snd (fold (mergeOuter rings J) [i..<length rings] (used, out)) =
          snd (fold (mergeOuter rings J) [i + 1..<length rings] (fst ?res, out @ [?ring]))"
      unfolding up by (simp add: step)
    also have "\<dots> = (out @ [?ring]) @ mergeUnused (remaining rings (fst ?res) (i + 1)) J"
      by (rule Suc.hyps(1)[OF d i1 l])
    also have "\<dots> = out @ mergeUnused (?base # remaining rings used (i + 1)) J"
      unfolding r b by (simp add: Let_def)
    finally show ?thesis
      using False remaining_step[OF il, of used] by simp
  qed
qed

lemma remaining_all: "remaining rings (replicate (length rings) False) 0 = rings"
proof -
  have "filter (\<lambda>k. \<not> replicate (length rings) False ! k) [0..<length rings] = [0..<length rings]"
    by (rule filter_True) simp
  then show ?thesis by (simp add: remaining_def map_nth)
qed

lemma mergeRings_unused: "mergeRings rings J = mergeUnused rings J"
  using mergeOuter_fold[of 0 rings "replicate (length rings) False" J "[]"]
  by (simp add: mergeRings_def remaining_all)

lemma consumed_filter: "consumed base members J rs = filter (merged base members J) rs"
  by (induction rs) (auto simp: merged_def)

lemma absorb_rest:
  "snd (absorb base members J best rs) = filter (\<lambda>r. \<not> merged base members J r) rs"
  by (induction rs arbitrary: best) (auto simp: merged_def Let_def)

lemma absorb_nothing:
  "consumed base members J rs = [] \<Longrightarrow> absorb base members J best rs = (best, rs)"
  by (induction rs arbitrary: best) (auto simp: Let_def split: if_splits)

lemma absorb_best_cases:
  "fst (absorb base members J best rs) = best \<or>
   (\<exists>r \<in> set (consumed base members J rs).
      fst (absorb base members J best rs) = (risk_score r, member_accounts r))"
proof (induction rs arbitrary: best)
  case Nil
  then show ?case by simp
next
  case (Cons r rs)
  show ?case
  proof (cases "merged base members J r")
    case False
    then show ?thesis using Cons[of best] by (auto simp: merged_def Let_def)
  next
    case True
    then show ?thesis
      using Cons[of best] Cons[of "(risk_score r, member_accounts r)"]
      by (auto simp: merged_def Let_def)
  qed
qed

lemma absorb_best_ge:
  "fst best \<le> fst (fst (absorb base members J best rs))"
proof (induction rs arbitrary: best)
  case Nil
  then show ?case by simp
next
  case (Cons r rs)
  show ?case
    using Cons[of best] Cons[of "(risk_score r, member_accounts r)"]
    by (auto simp: Let_def)
qed

lemma absorb_best_max:
  "r \<in> set (consumed base members J rs) \<Longrightarrow>
   risk_score r \<le> fst (fst (absorb base members J best rs))"
proof (induction rs arbitrary: best)
  case Nil
  then show ?case by simp
next
  case (Cons a rs)
  show ?case
  proof (cases "merged base members J a")
    case False
    then show ?thesis using Cons.IH[of best] Cons.prems by (auto simp: merged_def Let_def)
  next
    case True
    show ?thesis
    proof (cases "r = a")
      case True
      then show ?thesis
        using \<open>merged base members J a\<close>
          absorb_best_ge[of "(risk_score a, member_accounts a)" base members J rs]
          absorb_best_ge[of best base members J rs]
        by (auto simp: merged_def Let_def)
    next
      case False
      then show ?thesis
        using \<open>merged base members J a\<close> Cons.IH Cons.prems
        by (auto simp: merged_def Let_def)
    qed
  qed
qed

lemma consumed_pattern:
  "r \<in> set (consumed base members J rs) \<Longrightarrow> pattern_type r = pattern_type base \<and> r \<in> set rs"
  by (auto simp: consumed_filter merged_def)

lemma ring_update_eq:
  "pattern_type r = pattern_type (base :: RingCandidate) \<Longrightarrow>
   base\<lparr>member_accounts := member_accounts r, risk_score := risk_score r\<rparr> = r"
  by (cases r, cases base) simp

lemma merge_head:
  fixes base :: RingCandidate
  defines "res \<equiv> \<lambda>J rs. absorb base (new_Set (member_accounts base)) J (risk_score base, member_accounts base) rs"
  shows "base\<lparr>member_accounts := snd (fst (res J rs)), risk_score := fst (fst (res J rs))\<rparr>
      \<in> set (base # consumed base (new_Set (member_accounts base)) J rs)"
proof -
  let ?m = "new_Set (member_accounts base)"
  let ?b = "(risk_score base, member_accounts base)"
  from absorb_best_cases[of base ?m J ?b rs]
  show ?thesis
  proof
    assume "fst (absorb base ?m J ?b rs) = ?b"
    then show ?thesis by (simp add: res_def)
  next
    assume "\<exists>r\<in>set (consumed base ?m J rs). fst (absorb base ?m J ?b rs) = (risk_score r, member_accounts r)"
    then obtain r where r: "r \<in> set (consumed base ?m J rs)"
      and e: "fst (absorb base ?m J ?b rs) = (risk_score r, member_accounts r)" by blast
    from r have "pattern_type r = pattern_type base" by (simp add: consumed_pattern)
    then show ?thesis using r e by (simp add: res_def ring_update_eq)
  qed
qed

lemma mergeUnused_subset: "set (mergeUnused x J) \<subseteq> set x"
proof (induction x J rule: mergeUnused.induct)
  case (1 J)
  then show ?case by simp
next
  case (2 base rs J)
  let ?m = "new_Set (member_accounts base)"
  let ?res = "absorb base ?m J (risk_score base, member_accounts base) rs"
  have ih: "set (mergeUnused (snd ?res) J) \<subseteq> set (snd ?res)"
    using 2 by simp
  have "set (snd ?res) \<subseteq> set rs" by (auto simp: absorb_rest)
  moreover have "base\<lparr>member_accounts := snd (fst ?res), risk_score := fst (fst ?res)\<rparr> \<in> set (base # rs)"
    using merge_head[of base J rs] consumed_pattern[of _ base ?m J rs] by auto
  ultimately show ?case using ih by (auto simp: Let_def)
qed

lemma mergeUnused_length: "length (mergeUnused x J) \<le> length x"
proof (induction x J rule: mergeUnused.induct)
  case (1 J)
  then show ?case by simp
next
  case (2 base rs J)
  let ?m = "new_Set (member_accounts base)"
  let ?res = "absorb base ?m J (risk_score base, member_accounts base) rs"
  have "length (mergeUnused (snd ?res) J) \<le> length (snd ?res)" using 2 by simp
  moreover have "length (snd ?res) \<le> length rs" by (simp add: absorb_rest)
  ultimately show ?case by (simp add: Let_def)
qed

lemma mergeClasses_mset: "mset (concat (mergeClasses x J)) = mset x"
proof (induction x J rule: mergeClasses.induct)
  case (1 J)
  then show ?case by simp
next
  case (2 base rs J)
  let ?m = "new_Set (member_accounts base)"
  let ?res = "absorb base ?m J (risk_score base, member_accounts base) rs"
  have "mset (concat (mergeClasses (snd ?res) J)) = mset (snd ?res)" using 2 by simp
  then show ?case
    by (simp add: Let_def absorb_rest consumed_filter)
qed

lemma mergeUnused_classes: "list_all2 represents (mergeUnused x J) (mergeClasses x J)"
proof (induction x J rule: mergeUnused.induct)
  case (1 J)
  then show ?case by simp
next
  case (2 base rs J)
  let ?m = "new_Set (member_accounts base)"
  let ?res = "absorb base ?m J (risk_score base, member_accounts base) rs"
  let ?out = "base\<lparr>member_accounts := snd (fst ?res), risk_score := fst (fst ?res)\<rparr>"
  have ih: "list_all2 represents (mergeUnused (snd ?res) J) (mergeClasses (snd ?res) J)"
    using 2 by simp
  have mem: "?out \<in> set (base # consumed base ?m J rs)"
    using merge_head[of base J rs] by simp
  have pat: "pattern_type r = pattern_type ?out" if "r \<in> set (base # consumed base ?m J rs)" for r
    using that consumed_pattern[of r base ?m J rs] by auto
  have risk: "risk_score r \<le> risk_score ?out" if "r \<in> set (base # consumed base ?m J rs)" for r
    using that absorb_best_max[of r base ?m J rs "(risk_score base, member_accounts base)"]
      absorb_best_ge[of "(risk_score base, member_accounts base)" base ?m J rs]
    by auto
  have "represents ?out (base # consumed base ?m J rs)"
    unfolding represents_def list_all_iff using mem pat risk by blast
  then show ?case using ih by (simp add: Let_def)
qed

lemma mergeUnused_fixed_iff: "mergeUnused y J = y \<longleftrightarrow> below_threshold J y"
proof (induction y J rule: mergeUnused.induct)
  case (1 J)
  then show ?case by simp
next
  case (2 base rs J)
  let ?m = "new_Set (member_accounts base)"
  let ?res = "absorb base ?m J (risk_score base, member_accounts base) rs"
  have ih: "mergeUnused (snd ?res) J = snd ?res \<longleftrightarrow> below_threshold J (snd ?res)"
    using 2 by simp
  show ?case
  proof
    assume b: "below_threshold J (base # rs)"
    then have c: "consumed base ?m J rs = []" by simp
    then have "?res = ((risk_score base, member_accounts base), rs)"
      by (rule absorb_nothing)
    then show "mergeUnused (base # rs) J = base # rs"
      using ih b by (simp add: Let_def)
  next
    assume e: "mergeUnused (base # rs) J = base # rs"
    then have tl: "mergeUnused (snd ?res) J = rs" by (simp add: Let_def)
    have "length rs \<le> length (snd ?res)"
      using mergeUnused_length[of "snd ?res" J] tl by simp
    then have "length (filter (\<lambda>r. \<not> merged base ?m J r) rs) = length rs"
      using length_filter_le[of "\<lambda>r. \<not> merged base ?m J r" rs] by (simp add: absorb_rest)
    then have all: "\<forall>r \<in> set rs. \<not> merged base ?m J r"
      by (metis (mono_tags, lifting) filter_id_conv length_filter_less linorder_not_less order_refl)
    then have r: "snd ?res = rs" and c: "consumed base ?m J rs = []"
      by (auto simp: absorb_rest consumed_filter filter_empty_conv)
    from tl r ih have "below_threshold J rs" by simp
    then show "below_threshold J (base # rs)" using c by simp
  qed
qed

lemma mergeUnused_nonempty: "x \<noteq> [] \<Longrightarrow> mergeUnused x J \<noteq> []"
  by (cases x) (simp_all add: Let_def)

text \<open>
  Claim C9. \<^verbatim>\<open>mergeRings\<close> never synthesizes ring content. Every emitted ring is a ring
  of the input, with its pattern type, member list and risk score unchanged; it
  represents its merge class (it belongs to the class, the whole class has its pattern
  type, and no ring of the class has a higher risk); the classes partition the input; the
  output is no longer than the input, and it is non-empty whenever the input is.
\<close>

theorem mergeRings_no_synthesis:
  "set (mergeRings x J) \<subseteq> set x \<and>
   list_all2 represents (mergeRings x J) (mergeClasses x J) \<and>
   mset (concat (mergeClasses x J)) = mset x \<and>
   length (mergeRings x J) \<le> length x \<and>
   (x \<noteq> [] \<longrightarrow> mergeRings x J \<noteq> [])"
  unfolding mergeRings_unused
  using mergeUnused_subset mergeUnused_classes mergeClasses_mset mergeUnused_length
    mergeUnused_nonempty by blast

theorem mergeRings_no_synthesis_witness:
  "ex_rings \<noteq> [] \<and>
   mergeRings ex_rings (6 / 10) =
     [\<lparr>pattern_type = ''cycle'', member_accounts = [''a'', ''b'', ''c'', ''d''], risk_score = 977 / 10\<rparr>,
      \<lparr>pattern_type = ''cycle'', member_accounts = [''b'', ''c'', ''d''], risk_score = 993 / 10\<rparr>] \<and>
   set (mergeRings ex_rings (6 / 10)) \<subseteq> set ex_rings \<and>
   list_all2 represents (mergeRings ex_rings (6 / 10)) (mergeClasses ex_rings (6 / 10)) \<and>
   length (mergeRings ex_rings (6 / 10)) \<le> length ex_rings \<and>
   mergeRings ex_rings (6 / 10) \<noteq> []"
proof -
  have e: "ex_rings \<noteq> []" by (simp add: ex_rings_def)
  have v: "mergeRings ex_rings (6 / 10) =
     [\<lparr>pattern_type = ''cycle'', member_accounts = [''a'', ''b'', ''c'', ''d''], risk_score = 977 / 10\<rparr>,
      \<lparr>pattern_type = ''cycle'', member_accounts = [''b'', ''c'', ''d''], risk_score = 993 / 10\<rparr>]"
    by code_simp
  show ?thesis
    using mergeRings_no_synthesis[of ex_rings "6 / 10"] e v by simp
qed

text \<open>
  Claim C5, as stated: \<^verbatim>\<open>mergeRings(mergeRings(x)) == mergeRings(x)\<close> at the pipeline's
  threshold 0.6. It fails on the three candidates \<open>ex_rings\<close>, which are the rings the cycle
  detector emits on the transactions \<open>ex_cycle_txs\<close> (lemma \<open>ex_rings_detected\<close> below):
  the first pass merges the 4-cycle into the class of \<open>a b c\<close> and emits the 4-cycle's
  members, which the second pass finds close to \<open>b c d\<close>.
\<close>

theorem mergeRings_idempotent_counterexample:
  "mergeRings (mergeRings ex_rings (6 / 10)) (6 / 10) \<noteq> mergeRings ex_rings (6 / 10)"
  by code_simp

text \<open>
  Claim C5, amended. A second pass changes nothing exactly when the first pass's output
  has no base ring with a later ring of its pattern type at or above the threshold.
\<close>

theorem mergeRings_idempotent_iff:
  "mergeRings (mergeRings x J) J = mergeRings x J \<longleftrightarrow> below_threshold J (mergeRings x J)"
  unfolding mergeRings_unused by (rule mergeUnused_fixed_iff)

theorem mergeRings_idempotent_iff_witness:
  "below_threshold (6 / 10) (mergeRings (tl ex_rings) (6 / 10)) \<and>
   mergeRings (mergeRings (tl ex_rings) (6 / 10)) (6 / 10) = mergeRings (tl ex_rings) (6 / 10)"
proof -
  have "below_threshold (6 / 10) (mergeRings (tl ex_rings) (6 / 10))"
    by code_simp
  then show ?thesis
    using mergeRings_idempotent_iff[of "tl ex_rings" "6 / 10"] by simp
qed

section \<open>Properties of the host functions\<close>

lemma set_add_all_set: "set (set_add_all acc xs) = set acc \<union> set xs"
  by (induction xs arbitrary: acc) auto

lemma set_add_all_distinct: "distinct acc \<Longrightarrow> distinct (set_add_all acc xs)"
  by (induction xs arbitrary: acc) auto

lemma new_Set_set [simp]: "set (new_Set xs) = set xs"
  by (simp add: new_Set_def set_add_all_set)

lemma new_Set_distinct [simp]: "distinct (new_Set xs)"
  by (simp add: new_Set_def set_add_all_distinct)

lemma new_Set_Nil_iff [simp]: "new_Set xs = [] \<longleftrightarrow> xs = []"
  by (metis new_Set_set set_empty)

lemma uniqLoop_set: "set (uniqLoop out seen xs) = set out \<union> (set xs - seen)"
  by (induction xs arbitrary: out seen) auto

lemma uniqLoop_new_Set: "uniqLoop out (set out) xs = set_add_all out xs"
proof (induction xs arbitrary: out)
  case Nil
  then show ?case by simp
next
  case (Cons a xs)
  show ?case
  proof (cases "a \<in> set out")
    case True
    then show ?thesis using Cons by simp
  next
    case False
    have "uniqLoop (out @ [a]) (set (out @ [a])) xs = set_add_all (out @ [a]) xs"
      by (rule Cons)
    then show ?thesis using False by simp
  qed
qed

lemma uniqPreserveOrder_new_Set: "uniqPreserveOrder xs = new_Set xs"
  using uniqLoop_new_Set[of "[]" xs] by (simp add: uniqPreserveOrder_def new_Set_def)

text \<open>
  Removing duplicates by first occurrence, in terms of the library: \<open>remdups\<close> keeps the
  last occurrence of each element, so it is applied to the reversed list.
\<close>

lemma new_Set_first_occurrence: "new_Set xs = rev (remdups (rev xs))"
proof (induction xs rule: rev_induct)
  case Nil
  then show ?case by (simp add: new_Set_def)
next
  case (snoc x xs)
  have step: "set_add_all acc (ys @ [y]) =
      (if y \<in> set (set_add_all acc ys) then set_add_all acc ys else set_add_all acc ys @ [y])"
    for acc :: "'a list" and ys y
    by (induction ys arbitrary: acc) simp_all
  have "new_Set (xs @ [x]) = (if x \<in> set xs then new_Set xs else new_Set xs @ [x])"
    using step[of "[]" xs x] by (simp add: new_Set_def set_add_all_set)
  then show ?case using snoc by simp
qed

lemma uniqPreserveOrder_first_occurrence: "uniqPreserveOrder xs = rev (remdups (rev xs))"
  by (simp add: uniqPreserveOrder_new_Set new_Set_first_occurrence)

lemma sort_new_Set: "sort (new_Set xs) = sorted_list_of_set (set xs)"
  by (metis new_Set_distinct new_Set_set sorted_list_of_set_sort_remdups distinct_remdups_id)

lemma insert_by_mset: "mset (insert_by le x ys) = add_mset x (mset ys)"
  by (induction ys) auto

lemma sort_by_mset [simp]: "mset (sort_by le xs) = mset xs"
  by (induction xs) (auto simp: sort_by_def insert_by_mset)

lemma sort_by_set [simp]: "set (sort_by le xs) = set xs"
  by (metis sort_by_mset set_mset_mset)

lemma sort_by_length [simp]: "length (sort_by le xs) = length xs"
  by (metis sort_by_mset size_mset)

lemma insert_by_sorted:
  assumes total: "\<And>a b. le a b \<or> le b a"
    and trans: "\<And>a b c. le a b \<Longrightarrow> le b c \<Longrightarrow> le a c"
  shows "sorted_wrt le ys \<Longrightarrow> sorted_wrt le (insert_by le x ys)"
proof (induction ys)
  case Nil
  then show ?case by simp
next
  case (Cons y ys)
  show ?case
  proof (cases "le x y")
    case True
    then have "\<forall>z \<in> set ys. le x z" using Cons.prems trans by auto
    then show ?thesis using True Cons.prems by simp
  next
    case False
    then have "le y x" using total by blast
    moreover have "set (insert_by le x ys) = insert x (set ys)"
      by (metis insert_by_mset set_mset_mset set_mset_add_mset_insert)
    ultimately show ?thesis using False Cons by auto
  qed
qed

lemma sort_by_sorted:
  assumes total: "\<And>a b. le a b \<or> le b a"
    and trans: "\<And>a b c. le a b \<Longrightarrow> le b c \<Longrightarrow> le a c"
  shows "sorted_wrt le (sort_by le xs)"
proof (induction xs)
  case Nil
  then show ?case by (simp add: sort_by_def)
next
  case (Cons x xs)
  then show ?case
    using insert_by_sorted[of le "sort_by le xs" x, OF total trans]
    by (simp add: sort_by_def)
qed

section \<open>Properties of the output assembler\<close>

lemma suspiciousEntry_Some_iff:
  "suspiciousEntry lc best e = Some x \<longleftrightarrow>
     qualifies e \<and>
     x = \<lparr>account_id = fst e, suspicion_score = clamp (toFixed 1 (score (snd e))),
          detected_patterns = orderPatterns lc (new_Set (patterns (snd e))),
          account_ring_id = (case best (fst e) of Some b \<Rightarrow> Some (fst b) | None \<Rightarrow> ringId (snd e))\<rparr>"
  by (auto simp: suspiciousEntry_def qualifies_def Let_def)

lemma suspiciousEntry_None_iff: "suspiciousEntry lc best e = None \<longleftrightarrow> \<not> qualifies e"
  by (auto simp: suspiciousEntry_def qualifies_def Let_def)

lemma map_filter_suspicious_ids:
  "map (\<lambda>x. (account_id x, suspicion_score x)) (List.map_filter (suspiciousEntry lc best) es) =
   map (\<lambda>e. (fst e, clamp (toFixed 1 (score (snd e))))) (filter qualifies es)"
proof (induction es)
  case Nil
  then show ?case by (simp add: List.map_filter_simps)
next
  case (Cons e es)
  show ?case
  proof (cases "qualifies e")
    case True
    define x where "x = \<lparr>account_id = fst e, suspicion_score = clamp (toFixed 1 (score (snd e))),
          detected_patterns = orderPatterns lc (new_Set (patterns (snd e))),
          account_ring_id = (case best (fst e) of Some b \<Rightarrow> Some (fst b) | None \<Rightarrow> ringId (snd e))\<rparr>"
    have "suspiciousEntry lc best e = Some x"
      using True by (simp only: suspiciousEntry_Some_iff x_def)
    then show ?thesis using True Cons
      by (simp add: List.map_filter_simps x_def)
  next
    case False
    then show ?thesis using Cons suspiciousEntry_None_iff[of lc best e]
      by (simp add: List.map_filter_simps)
  qed
qed

lemma accountCompare_le:
  "accountCompare lc a b \<le> 0 \<longleftrightarrow> accountBefore lc a b"
  by (auto simp: accountCompare_def accountBefore_def)

lemma accountBefore_total:
  "consistent_comparator lc \<Longrightarrow> accountBefore lc a b \<or> accountBefore lc b a"
  unfolding consistent_comparator_def accountBefore_def
  by (metis linorder_less_linear)

lemma accountBefore_trans:
  "consistent_comparator lc \<Longrightarrow> accountBefore lc a b \<Longrightarrow> accountBefore lc b c \<Longrightarrow> accountBefore lc a c"
  unfolding consistent_comparator_def accountBefore_def
  by (metis order_less_trans)

lemma suspicious_accounts_eq:
  "suspicious_accounts (buildDeterministicOutput lc allNodes rings accountScores ps) =
   sort_by (accountBefore lc)
     (List.map_filter (suspiciousEntry lc (memberToBestRing (toFraudRings (ringList lc rings)))) accountScores)"
  by (simp add: buildDeterministicOutput_def Let_def accountCompare_le)

lemma codeUnitCompare_consistent: "consistent_comparator codeUnitCompare"
  unfolding consistent_comparator_def codeUnitCompare_def by auto

lemma sig_inv_keys: "sig_inv S B \<Longrightarrow> fst ` set B = ringSignature ` S"
  by (simp add: sig_inv_def)

lemma sig_inv_distinct: "sig_inv S B \<Longrightarrow> distinct (map fst B)"
  by (simp add: sig_inv_def)

lemma sig_inv_entry:
  "sig_inv S B \<Longrightarrow> map_of B k = Some r \<Longrightarrow>
   ringSignature r = k \<and> r \<in> S \<and> (\<forall>r' \<in> S. ringSignature r' = k \<longrightarrow> risk_score r' \<le> risk_score r)"
  unfolding sig_inv_def by blast

lemma update_keys_image:
  "fst ` set (AList.update k v al) = insert k (fst ` set al)"
  using dom_update[of k v al] by (simp add: dom_map_of_conv_image_fst)

lemma t1:
  assumes "sig_inv S B" and "map_of B (ringSignature r) = None"
  shows "ringSignature r \<notin> ringSignature ` S"
  using assms(2) sig_inv_keys[OF assms(1)] by (simp add: map_of_eq_None_iff)

lemma sig_invI:
  assumes "distinct (map fst B)" and "fst ` set B = ringSignature ` S"
    and "\<And>k r. map_of B k = Some r \<Longrightarrow> ringSignature r = k \<and> r \<in> S \<and>
          (\<forall>r' \<in> S. ringSignature r' = k \<longrightarrow> risk_score r' \<le> risk_score r)"
  shows "sig_inv S B"
  unfolding sig_inv_def using assms by blast

lemma sig_inv_step_new:
  assumes "sig_inv S B" and "map_of B (ringSignature r) = None"
  shows "sig_inv (insert r S) (AList.update (ringSignature r) r B)"
proof (rule sig_invI)
  have notin: "ringSignature r \<notin> ringSignature ` S"
    by (rule t1[OF assms])
  show "distinct (map fst (AList.update (ringSignature r) r B))"
    using sig_inv_distinct[OF assms(1)] by (simp add: distinct_update)
  show "fst ` set (AList.update (ringSignature r) r B) = ringSignature ` insert r S"
    using sig_inv_keys[OF assms(1)] by (simp add: update_keys_image)
  fix k r0
  assume "map_of (AList.update (ringSignature r) r B) k = Some r0"
  then have m: "((map_of B)(ringSignature r \<mapsto> r)) k = Some r0"
    by (simp add: update_conv')
  show "ringSignature r0 = k \<and> r0 \<in> insert r S \<and>
        (\<forall>r'\<in>insert r S. ringSignature r' = k \<longrightarrow> risk_score r' \<le> risk_score r0)"
  proof (cases "k = ringSignature r")
    case True
    then have "r0 = r" using m by simp
    then show ?thesis using True notin by (auto simp: image_iff)
  next
    case False
    then have "map_of B k = Some r0" using m by simp
    from sig_inv_entry[OF assms(1) this] show ?thesis using False by auto
  qed
qed

lemma sig_inv_step_better:
  assumes "sig_inv S B" and "map_of B (ringSignature r) = Some prev"
    and "risk_score r > risk_score prev"
  shows "sig_inv (insert r S) (AList.update (ringSignature r) r B)"
proof (rule sig_invI)
  have isin: "ringSignature r \<in> fst ` set B"
    using assms(2) by (metis domI dom_map_of_conv_image_fst)
  have prev: "\<forall>r'\<in>S. ringSignature r' = ringSignature r \<longrightarrow> risk_score r' \<le> risk_score prev"
    using sig_inv_entry[OF assms(1,2)] by simp
  show "distinct (map fst (AList.update (ringSignature r) r B))"
    using sig_inv_distinct[OF assms(1)] by (simp add: distinct_update)
  show "fst ` set (AList.update (ringSignature r) r B) = ringSignature ` insert r S"
    using sig_inv_keys[OF assms(1)] isin by (simp add: update_keys_image insert_absorb)
  fix k r0
  assume "map_of (AList.update (ringSignature r) r B) k = Some r0"
  then have m: "((map_of B)(ringSignature r \<mapsto> r)) k = Some r0"
    by (simp add: update_conv')
  show "ringSignature r0 = k \<and> r0 \<in> insert r S \<and>
        (\<forall>r'\<in>insert r S. ringSignature r' = k \<longrightarrow> risk_score r' \<le> risk_score r0)"
  proof (cases "k = ringSignature r")
    case True
    then have "r0 = r" using m by simp
    then show ?thesis using True prev assms(3) by auto
  next
    case False
    then have "map_of B k = Some r0" using m by simp
    from sig_inv_entry[OF assms(1) this] show ?thesis using False by auto
  qed
qed

lemma sig_inv_step_keep:
  assumes "sig_inv S B" and "map_of B (ringSignature r) = Some prev"
    and "\<not> risk_score r > risk_score prev"
  shows "sig_inv (insert r S) B"
proof (rule sig_invI)
  have isin: "ringSignature r \<in> fst ` set B"
    using assms(2) by (metis domI dom_map_of_conv_image_fst)
  show "distinct (map fst B)" by (rule sig_inv_distinct[OF assms(1)])
  show "fst ` set B = ringSignature ` insert r S"
    using sig_inv_keys[OF assms(1)] isin by (simp add: insert_absorb)
  fix k r0
  assume m: "map_of B k = Some r0"
  note old = sig_inv_entry[OF assms(1) m]
  show "ringSignature r0 = k \<and> r0 \<in> insert r S \<and>
        (\<forall>r'\<in>insert r S. ringSignature r' = k \<longrightarrow> risk_score r' \<le> risk_score r0)"
  proof (cases "k = ringSignature r")
    case True
    then have "r0 = prev" using m assms(2) by simp
    then show ?thesis using True old assms(3) by auto
  next
    case False
    then show ?thesis using old by auto
  qed
qed

lemma bestBySig_loop_inv:
  "sig_inv S B \<Longrightarrow> sig_inv (S \<union> set rs) (bestBySig_loop B rs)"
proof (induction rs arbitrary: S B)
  case Nil
  then show ?case by simp
next
  case (Cons r rs)
  have u: "S \<union> set (r # rs) = insert r S \<union> set rs" by auto
  show ?case
  proof (cases "map_of B (ringSignature r)")
    case None
    then show ?thesis
      using Cons.IH[OF sig_inv_step_new[OF Cons.prems None]] by (simp add: Let_def u)
  next
    case (Some prev)
    show ?thesis
    proof (cases "risk_score r > risk_score prev")
      case True
      then show ?thesis
        using Cons.IH[OF sig_inv_step_better[OF Cons.prems Some True]] Some by (simp add: Let_def u)
    next
      case False
      then show ?thesis
        using Cons.IH[OF sig_inv_step_keep[OF Cons.prems Some False]] Some by (simp add: Let_def u)
    qed
  qed
qed

lemma bestBySig_inv: "sig_inv (set rings) (bestBySig_loop [] rings)"
  using bestBySig_loop_inv[of "{}" "[]" rings] by (simp add: sig_inv_def)

lemma bestBySig_entries:
  assumes "sig_inv S B" and "(k, r) \<in> set B"
  shows "ringSignature r = k \<and> r \<in> S \<and>
         (\<forall>r' \<in> S. ringSignature r' = k \<longrightarrow> risk_score r' \<le> risk_score r)"
proof -
  have "map_of B k = Some r"
    using assms(2) sig_inv_distinct[OF assms(1)] by simp
  then show ?thesis by (rule sig_inv_entry[OF assms(1)])
qed

lemma bestBySig_signatures:
  assumes "sig_inv S B"
  shows "map ringSignature (map snd B) = map fst B"
proof -
  have "ringSignature (snd e) = fst e" if "e \<in> set B" for e
    using bestBySig_entries[OF assms, of "fst e" "snd e"] that by simp
  then show ?thesis by simp
qed

lemma kept_distinct:
  "distinct (map ringSignature (map snd (bestBySig_loop [] rings)))"
  using bestBySig_signatures[OF bestBySig_inv] sig_inv_distinct[OF bestBySig_inv] by metis

lemma kept_signatures:
  "set (map ringSignature (map snd (bestBySig_loop [] rings))) = ringSignature ` set rings"
  using bestBySig_signatures[OF bestBySig_inv, of rings] sig_inv_keys[OF bestBySig_inv, of rings]
  by simp

lemma kept_best:
  assumes "k \<in> set (map snd (bestBySig_loop [] rings))"
  shows "k \<in> set rings \<and>
         (\<forall>r \<in> set rings. ringSignature r = ringSignature k \<longrightarrow> risk_score r \<le> risk_score k)"
proof -
  from assms obtain s where "(s, k) \<in> set (bestBySig_loop [] rings)" by auto
  from bestBySig_entries[OF bestBySig_inv this] show ?thesis by auto
qed

lemma ringList_mset: "mset (ringList lc rings) = mset (map snd (bestBySig_loop [] rings))"
  by (simp add: ringList_def)

lemma ringList_distinct: "distinct (map ringSignature (ringList lc rings))"
proof -
  have "mset (map ringSignature (ringList lc rings)) =
        mset (map ringSignature (map snd (bestBySig_loop [] rings)))"
    using ringList_mset[of lc rings] by (metis mset_map)
  then show ?thesis using kept_distinct[of rings] by (metis mset_eq_imp_distinct_iff)
qed

lemma ringList_set: "set (ringList lc rings) = set (map snd (bestBySig_loop [] rings))"
  using ringList_mset[of lc rings] by (metis set_mset_mset)

lemma ringCompare_le: "ringCompare lc a b \<le> 0 \<longleftrightarrow> ringBefore lc a b"
  by (auto simp: ringCompare_def ringBefore_def memberKey_def Let_def)

lemma ringBefore_total:
  "consistent_comparator lc \<Longrightarrow> ringBefore lc a b \<or> ringBefore lc b a"
  unfolding consistent_comparator_def ringBefore_def
  by (metis linorder_less_linear)

lemma ringBefore_trans:
  "consistent_comparator lc \<Longrightarrow> ringBefore lc a b \<Longrightarrow> ringBefore lc b c \<Longrightarrow> ringBefore lc a c"
  unfolding consistent_comparator_def ringBefore_def
  by (metis order_less_trans)

lemma ringList_sorted:
  assumes "consistent_comparator lc"
  shows "sorted_wrt (ringBefore lc) (ringList lc rings)"
proof -
  have "sorted_wrt (ringBefore lc) (sort_by (ringBefore lc) xs)" for xs :: "RingCandidate list"
    using ringBefore_total[OF assms] ringBefore_trans[OF assms]
    by (intro sort_by_sorted) blast+
  then show ?thesis by (simp add: ringList_def ringCompare_le)
qed

lemma toFraudRings_length [simp]: "length (toFraudRings rs) = length rs"
  by (simp add: toFraudRings_def)

lemma toFraudRings_nth: "i < length rs \<Longrightarrow> toFraudRings rs ! i = toFraudRing i (rs ! i)"
  by (simp add: toFraudRings_def nth_enumerate_eq)

lemma toFraudRing_members_set [simp]:
  "set (member_accounts (toFraudRing i r)) = set (member_accounts r)"
  by (simp add: toFraudRing_def uniqPreserveOrder_new_Set)

lemma toFraudRing_pattern [simp]: "pattern_type (toFraudRing i r) = pattern_type r"
  by (simp add: toFraudRing_def)

lemma toFraudRing_signature [simp]: "ringSignature (toFraudRing i r) = ringSignature r"
  by (simp add: ringSignature_def sort_new_Set)

lemma toFraudRing_memberKey [simp]: "memberKey (toFraudRing i r) = memberKey r"
  by (simp add: memberKey_def sort_new_Set)

lemma ringBefore_toFraudRing [simp]:
  "ringBefore lc (toFraudRing i a) (toFraudRing j b) = ringBefore lc a b"
  by (simp add: ringBefore_def)

lemma toFraudRings_signatures [simp]:
  "map ringSignature (toFraudRings rs) = map ringSignature rs"
  by (rule nth_equalityI) (simp_all add: toFraudRings_nth)

lemma toFraudRings_sorted:
  "sorted_wrt (ringBefore lc) rs \<Longrightarrow> sorted_wrt (ringBefore lc) (toFraudRings rs)"
  by (simp add: sorted_wrt_iff_nth_less toFraudRings_nth)

lemma same_members_same_signature:
  "pattern_type a = pattern_type b \<Longrightarrow> set (member_accounts a) = set (member_accounts b) \<Longrightarrow>
   ringSignature a = ringSignature b"
  by (simp add: ringSignature_def sort_new_Set)

lemma fraud_rings_eq:
  "fraud_rings (buildDeterministicOutput lc allNodes rings accountScores ps) =
   toFraudRings (ringList lc rings)"
  by (simp add: buildDeterministicOutput_def Let_def)

lemma toFraudRing_id: "ring_id (toFraudRing i r) = ''RING_'' @ padStart3 (String_of_nat (i + 1))"
  by (simp add: toFraudRing_def)

text \<open>
  Claim C1. The assembler emits an account exactly when its score, rounded to one decimal
  and clamped to [0, 100], is at least 60 and its tag set is non-empty: the emitted
  (account, score) pairs are those of the qualifying entries of the score map, each once.
  The emitted list is sorted by descending score, ties in ascending order of the account
  id, the order being the one \<^verbatim>\<open>localeCompare\<close> defines (a consistent comparator).
\<close>

theorem suspicious_accounts_filter_and_order:
  "(let out = suspicious_accounts (buildDeterministicOutput lc allNodes rings accountScores ps) in
      (\<forall>a. a \<in> set (map account_id out) \<longleftrightarrow> (\<exists>v. (a, v) \<in> set accountScores \<and> qualifies (a, v))) \<and>
      mset (map (\<lambda>x. (account_id x, suspicion_score x)) out) =
        mset (map (\<lambda>e. (fst e, clamp (toFixed 1 (score (snd e))))) (filter qualifies accountScores)) \<and>
      (consistent_comparator lc \<longrightarrow> sorted_wrt (accountBefore lc) out))"
proof -
  let ?best = "memberToBestRing (toFraudRings (ringList lc rings))"
  let ?raw = "List.map_filter (suspiciousEntry lc ?best) accountScores"
  let ?out = "suspicious_accounts (buildDeterministicOutput lc allNodes rings accountScores ps)"
  have m: "mset (map (\<lambda>x. (account_id x, suspicion_score x)) ?out) =
        mset (map (\<lambda>e. (fst e, clamp (toFixed 1 (score (snd e))))) (filter qualifies accountScores))"
  proof -
    have "mset (map (\<lambda>x. (account_id x, suspicion_score x)) (sort_by (accountBefore lc) ?raw)) =
          mset (map (\<lambda>x. (account_id x, suspicion_score x)) ?raw)"
      by (metis mset_map sort_by_mset)
    then show ?thesis by (simp add: suspicious_accounts_eq map_filter_suspicious_ids)
  qed
  have s: "consistent_comparator lc \<longrightarrow> sorted_wrt (accountBefore lc) ?out"
  proof
    assume c: "consistent_comparator lc"
    show "sorted_wrt (accountBefore lc) ?out"
      unfolding suspicious_accounts_eq
      using accountBefore_total[OF c] accountBefore_trans[OF c]
      by (intro sort_by_sorted) blast+
  qed
  have "map account_id ?out = map fst (map (\<lambda>x. (account_id x, suspicion_score x)) ?out)"
    by simp
  then have "set (map account_id ?out) =
      fst ` set_mset (mset (map (\<lambda>x. (account_id x, suspicion_score x)) ?out))"
    by (metis set_map set_mset_mset)
  also have "\<dots> = fst ` set (filter qualifies accountScores)"
    unfolding m by (simp add: image_image)
  finally have ids: "set (map account_id ?out) = fst ` set (filter qualifies accountScores)" .
  have "a \<in> fst ` set (filter qualifies accountScores) \<longleftrightarrow>
        (\<exists>v. (a, v) \<in> set accountScores \<and> qualifies (a, v))" for a
  proof
    assume "a \<in> fst ` set (filter qualifies accountScores)"
    then obtain e where e: "e \<in> set accountScores" "qualifies e" "a = fst e" by auto
    then have "(a, snd e) \<in> set accountScores \<and> qualifies (a, snd e)" by simp
    then show "\<exists>v. (a, v) \<in> set accountScores \<and> qualifies (a, v)" ..
  next
    assume "\<exists>v. (a, v) \<in> set accountScores \<and> qualifies (a, v)"
    then obtain v where "(a, v) \<in> set (filter qualifies accountScores)" by auto
    then show "a \<in> fst ` set (filter qualifies accountScores)" by (rule rev_image_eqI) simp
  qed
  then have i: "\<forall>a. a \<in> set (map account_id ?out) \<longleftrightarrow> (\<exists>v. (a, v) \<in> set accountScores \<and> qualifies (a, v))"
    unfolding ids by blast
  show ?thesis unfolding Let_def by (intro conjI i m s)
qed

theorem suspicious_accounts_filter_and_order_witness:
  "consistent_comparator codeUnitCompare \<and>
   map (\<lambda>x. (account_id x, suspicion_score x))
     (suspicious_accounts (buildDeterministicOutput codeUnitCompare [''a'', ''b'', ''c'', ''d'', ''e''] ex_rings ex_scores (1234 / 1000000)))
     = [(''b'', 962 / 10), (''d'', 962 / 10), (''c'', 60)] \<and>
   map fst (filter qualifies ex_scores) = [''d'', ''c'', ''b''] \<and>
   sorted_wrt (accountBefore codeUnitCompare)
     (suspicious_accounts (buildDeterministicOutput codeUnitCompare [''a'', ''b'', ''c'', ''d'', ''e''] ex_rings ex_scores (1234 / 1000000)))"
proof -
  have v: "map (\<lambda>x. (account_id x, suspicion_score x))
     (suspicious_accounts (buildDeterministicOutput codeUnitCompare [''a'', ''b'', ''c'', ''d'', ''e''] ex_rings ex_scores (1234 / 1000000)))
     = [(''b'', 962 / 10), (''d'', 962 / 10), (''c'', 60)]"
    by code_simp
  have q: "map fst (filter qualifies ex_scores) = [''d'', ''c'', ''b'']"
    by code_simp
  show ?thesis
    using suspicious_accounts_filter_and_order[of codeUnitCompare
        "[''a'', ''b'', ''c'', ''d'', ''e'']" ex_rings ex_scores "1234 / 1000000"]
      codeUnitCompare_consistent v q
    by (simp add: Let_def)
qed

text \<open>
  Claim C8. The assembler keeps exactly one ring per signature, the one with the highest
  risk: the emitted signatures are pairwise distinct and are those of the input, and the
  ring at index \<open>i\<close> is made from an input ring that no input ring of its signature exceeds
  in risk. It numbers the rings \<open>RING_001\<close>, \<open>RING_002\<close>, ... in list order. The list is
  ordered by pattern priority, then ascending by the sorted-member key, the order being
  the one \<^verbatim>\<open>localeCompare\<close> defines (a consistent comparator). No two emitted cycle rings
  have the same member set.
\<close>

theorem ring_canonicalization:
  "(let out = fraud_rings (buildDeterministicOutput lc allNodes rings accountScores ps) in
      distinct (map ringSignature out) \<and>
      set (map ringSignature out) = ringSignature ` set rings \<and>
      (\<forall>i < length out. \<exists>k \<in> set rings.
         out ! i = toFraudRing i k \<and>
         ring_id (out ! i) = ''RING_'' @ padStart3 (String_of_nat (i + 1)) \<and>
         (\<forall>r \<in> set rings. ringSignature r = ringSignature k \<longrightarrow> risk_score r \<le> risk_score k)) \<and>
      (consistent_comparator lc \<longrightarrow> sorted_wrt (ringBefore lc) out) \<and>
      patternPriority ''cycle'' = 1 \<and> patternPriority ''smurfing'' = 2 \<and>
      patternPriority ''layered_shell'' = 3 \<and>
      (pt \<noteq> ''cycle'' \<and> pt \<noteq> ''smurfing'' \<and> pt \<noteq> ''layered_shell'' \<longrightarrow> patternPriority pt = 9) \<and>
      (\<forall>i j. i < j \<and> j < length out \<and>
             pattern_type (out ! i) = ''cycle'' \<and> pattern_type (out ! j) = ''cycle'' \<longrightarrow>
             set (member_accounts (out ! i)) \<noteq> set (member_accounts (out ! j))))"
proof -
  have p: "patternPriority ''cycle'' = 1" "patternPriority ''smurfing'' = 2"
    "patternPriority ''layered_shell'' = 3"
    "pt \<noteq> ''cycle'' \<and> pt \<noteq> ''smurfing'' \<and> pt \<noteq> ''layered_shell'' \<longrightarrow> patternPriority pt = 9"
    by (simp_all add: patternPriority_def)
  let ?kept = "ringList lc rings"
  let ?out = "toFraudRings ?kept"
  have d: "distinct (map ringSignature ?out)"
    by (simp add: ringList_distinct)
  have s: "set (map ringSignature ?out) = ringSignature ` set rings"
    using kept_signatures[of rings] by (simp add: ringList_set image_image)
  have b: "\<exists>k \<in> set rings. ?out ! i = toFraudRing i k \<and>
             ring_id (?out ! i) = ''RING_'' @ padStart3 (String_of_nat (i + 1)) \<and>
             (\<forall>r \<in> set rings. ringSignature r = ringSignature k \<longrightarrow> risk_score r \<le> risk_score k)"
    if "i < length ?out" for i
  proof -
    have i: "i < length ?kept" using that by simp
    then have "?kept ! i \<in> set (map snd (bestBySig_loop [] rings))"
      using ringList_set[of lc rings] nth_mem by blast
    from kept_best[OF this] show ?thesis
      using i by (intro bexI[of _ "?kept ! i"]) (simp_all add: toFraudRings_nth toFraudRing_id)
  qed
  have o: "consistent_comparator lc \<longrightarrow> sorted_wrt (ringBefore lc) ?out"
    using toFraudRings_sorted[OF ringList_sorted] by blast
  have u: "set (member_accounts (?out ! i)) \<noteq> set (member_accounts (?out ! j))"
    if "i < j" "j < length ?out" "pattern_type (?out ! i) = ''cycle''" "pattern_type (?out ! j) = ''cycle''"
    for i j
  proof
    assume e: "set (member_accounts (?out ! i)) = set (member_accounts (?out ! j))"
    have "ringSignature (?out ! i) = ringSignature (?out ! j)"
      using that e by (intro same_members_same_signature) simp_all
    then have "map ringSignature ?kept ! i = map ringSignature ?kept ! j"
      using that by (simp add: toFraudRings_nth)
    moreover have "i < length (map ringSignature ?kept)" "j < length (map ringSignature ?kept)"
      using that by simp_all
    ultimately have "i = j"
      using ringList_distinct[of lc rings] nth_eq_iff_index_eq by blast
    then show False using that by simp
  qed
  have b': "\<forall>i < length ?out. \<exists>k \<in> set rings. ?out ! i = toFraudRing i k \<and>
             ring_id (?out ! i) = ''RING_'' @ padStart3 (String_of_nat (i + 1)) \<and>
             (\<forall>r \<in> set rings. ringSignature r = ringSignature k \<longrightarrow> risk_score r \<le> risk_score k)"
    using b by blast
  have u': "\<forall>i j. i < j \<and> j < length ?out \<and>
                 pattern_type (?out ! i) = ''cycle'' \<and> pattern_type (?out ! j) = ''cycle'' \<longrightarrow>
                 set (member_accounts (?out ! i)) \<noteq> set (member_accounts (?out ! j))"
    using u by blast
  show ?thesis
    unfolding fraud_rings_eq Let_def by (intro conjI d s b' o u' p)
qed

theorem ring_canonicalization_witness:
  "consistent_comparator codeUnitCompare \<and>
   map (\<lambda>r. (ring_id r, pattern_type r, member_accounts r, risk_score r))
     (fraud_rings (buildDeterministicOutput codeUnitCompare [] ex_rings2 [] 0)) =
     [(''RING_001'', ''cycle'', [''a'', ''b'', ''c''], 95),
      (''RING_002'', ''cycle'', [''b'', ''c'', ''d''], 933 / 10),
      (''RING_003'', ''smurfing'', [''h'', ''p'', ''q''], 80),
      (''RING_004'', ''layered_shell'', [''s'', ''x'', ''y'', ''t''], 815 / 10)] \<and>
   distinct (map ringSignature (fraud_rings (buildDeterministicOutput codeUnitCompare [] ex_rings2 [] 0))) \<and>
   sorted_wrt (ringBefore codeUnitCompare) (fraud_rings (buildDeterministicOutput codeUnitCompare [] ex_rings2 [] 0))"
proof -
  have v: "map (\<lambda>r. (ring_id r, pattern_type r, member_accounts r, risk_score r))
     (fraud_rings (buildDeterministicOutput codeUnitCompare [] ex_rings2 [] 0)) =
     [(''RING_001'', ''cycle'', [''a'', ''b'', ''c''], 95),
      (''RING_002'', ''cycle'', [''b'', ''c'', ''d''], 933 / 10),
      (''RING_003'', ''smurfing'', [''h'', ''p'', ''q''], 80),
      (''RING_004'', ''layered_shell'', [''s'', ''x'', ''y'', ''t''], 815 / 10)]"
    by code_simp
  show ?thesis
    using ring_canonicalization[of codeUnitCompare "[]" ex_rings2 "[]" 0 "''other''"]
      codeUnitCompare_consistent v
    by (simp add: Let_def)
qed

section \<open>Properties of the cycle detector\<close>

lemma canonicalCycle_fold_mset:
  "mset best = mset ns \<Longrightarrow>
   mset (fold (\<lambda>s best. (let rot = drop s ns @ take s ns
                      in if join ''|'' rot < join ''|'' best then rot else best)) ss best) = mset ns"
proof (induction ss arbitrary: best)
  case Nil
  then show ?case by simp
next
  case (Cons s ss)
  have "mset (drop s ns @ take s ns) = mset ns"
    by (metis append_take_drop_id mset_append union_commute)
  then show ?case using Cons by (simp add: Let_def)
qed

lemma canonicalCycle_mset: "mset (canonicalCycle ns) = mset ns"
  unfolding canonicalCycle_def by (rule canonicalCycle_fold_mset) simp

lemma canonicalCycle_length: "length (canonicalCycle ns) = length ns"
  using canonicalCycle_mset[of ns] by (metis size_mset)

lemma canonicalCycle_distinct: "distinct (canonicalCycle ns) = distinct ns"
  using canonicalCycle_mset[of ns] by (metis mset_eq_imp_distinct_iff)

lemma closeCycle_rings:
  "det_rings (closeCycle g path st) = det_rings st \<or>
   (\<exists>risk. det_rings (closeCycle g path st) =
      det_rings st @ [\<lparr>pattern_type = ''cycle'', member_accounts = sort (canonicalCycle path),
                       risk_score = risk\<rparr>])"
  by (simp add: closeCycle_def Let_def)

lemma closeCycle_sized:
  assumes "list_all cycle_sized (det_rings st)" and "3 \<le> length path" and "length path \<le> 5"
    and "distinct path"
  shows "list_all cycle_sized (det_rings (closeCycle g path st))"
proof -
  have "cycle_sized \<lparr>pattern_type = ''cycle'', member_accounts = sort (canonicalCycle path),
                     risk_score = risk\<rparr>" for risk
    using assms(2,3,4) by (simp add: cycle_sized_def canonicalCycle_length canonicalCycle_distinct)
  then show ?thesis
    using closeCycle_rings[of g path st] assms(1) by auto
qed

lemma dfsCycle_sized:
  "visited = set path \<Longrightarrow> distinct path \<Longrightarrow> length path = depth \<Longrightarrow>
   list_all cycle_sized (det_rings st) \<Longrightarrow>
   list_all cycle_sized (det_rings (dfsCycle g idx start startIdx path visited u depth st))"
  and dfsCycleLoop_sized:
  "visited = set path \<Longrightarrow> distinct path \<Longrightarrow> length path = depth \<Longrightarrow>
   list_all cycle_sized (det_rings st) \<Longrightarrow>
   list_all cycle_sized (det_rings (dfsCycleLoop g idx start startIdx path visited depth vs st))"
proof (induction g idx start startIdx path visited u depth st
         and g idx start startIdx path visited depth vs st
       rule: dfsCycle_dfsCycleLoop.induct)
  case (1 g idx start startIdx path visited u depth st)
  then show ?case by (auto split: option.splits)
next
  case (2 g idx start startIdx path visited depth st)
  then show ?case by simp
next
  case (3 g idx start startIdx path visited depth v vs st)
  note prems = "3.prems"
  show ?case
  proof (cases "idx v")
    case None
    then show ?thesis using "3.IH"(1)[OF None prems] by simp
  next
    case (Some vi)
    show ?thesis
    proof (cases "vi < startIdx")
      case True
      then show ?thesis using "3.IH"(2)[OF Some True prems] Some by simp
    next
      case lt: False
      show ?thesis
      proof (cases "v = start")
        case True
        have "list_all cycle_sized
                (det_rings (if depth \<ge> 3 \<and> depth \<le> 5 then closeCycle g path st else st))"
          using prems closeCycle_sized[of st path g] by simp
        then show ?thesis
          using "3.IH"(3)[OF Some lt True prems(1,2,3)] Some lt True by simp
      next
        case ns: False
        show ?thesis
        proof (cases "v \<in> visited")
          case True
          then show ?thesis using "3.IH"(4)[OF Some lt ns True prems] Some lt ns by simp
        next
          case nv: False
          have inner: "list_all cycle_sized
              (det_rings (dfsCycle g idx start startIdx (path @ [v]) (insert v visited) v (depth + 1) st))"
            using "3.IH"(5)[OF Some lt ns nv] prems nv by simp
          show ?thesis
            using "3.IH"(6)[OF Some lt ns nv prems(1,2,3) inner] Some lt ns nv by simp
        qed
      qed
    qed
  qed
qed

lemma detectCycles35_fold_sized:
  "list_all cycle_sized (det_rings st) \<Longrightarrow>
   list_all cycle_sized
     (det_rings (fold (\<lambda>start st. dfsCycle g idx start (the (idx start)) [start] {start} start 1 st) ns st))"
proof (induction ns arbitrary: st)
  case Nil
  then show ?case by simp
next
  case (Cons s ns)
  have "list_all cycle_sized (det_rings (dfsCycle g idx s (the (idx s)) [s] {s} s 1 st))"
    using Cons.prems by (intro dfsCycle_sized) simp_all
  from Cons.IH[OF this] show ?case by simp
qed

lemma detectCycles35_sized: "list_all cycle_sized (det_rings (detectCycles35 g))"
  unfolding detectCycles35_def Let_def
  by (rule detectCycles35_fold_sized) (simp add: emptyDetection_def)

section \<open>Properties of the shell-chain detector\<close>

lemma acceptChain_rings:
  "det_rings (acceptChain g path d st) = det_rings st \<or>
   (intermediatesOk g path \<and>
    (\<exists>risk. det_rings (acceptChain g path d st) =
       det_rings st @ [\<lparr>pattern_type = ''layered_shell'', member_accounts = path, risk_score = risk\<rparr>]))"
  by (auto simp: acceptChain_def Let_def split: option.splits)

lemma acceptChain_found: "det_found st \<le> det_found (acceptChain g path d st)"
  by (auto simp: acceptChain_def Let_def split: option.splits)

lemma intermediatesOk_shell:
  "intermediatesOk g path \<Longrightarrow>
   list_all (\<lambda>i. low g (path ! i) \<and> indeg g (path ! i) = 1 \<and> outdeg g (path ! i) = 1)
     [1..<length path - 1]"
  by (simp add: intermediatesOk_def shellLike_def list_all_iff)

lemma acceptChain_shell:
  assumes "list_all (shell_ring g) (det_rings st)" and "4 \<le> length path" and "length path \<le> 8"
    and "distinct path"
  shows "list_all (shell_ring g) (det_rings (acceptChain g path d st))"
proof -
  have "shell_ring g \<lparr>pattern_type = ''layered_shell'', member_accounts = path, risk_score = risk\<rparr>"
    if "intermediatesOk g path" for risk
    using assms(2,3,4) intermediatesOk_shell[OF that] by (simp add: shell_ring_def)
  then show ?thesis
    using acceptChain_rings[of g path d st] assms(1) by auto
qed

lemma dfsShell_shell:
  "visited = set path \<Longrightarrow> distinct path \<Longrightarrow> length path = depthEdges + 1 \<Longrightarrow>
   list_all (shell_ring g) (det_rings st) \<Longrightarrow>
   list_all (shell_ring g) (det_rings (dfsShell g path visited u depthEdges st))"
  and dfsShellLoop_shell:
  "visited = set path \<Longrightarrow> distinct path \<Longrightarrow> length path = depthEdges + 1 \<Longrightarrow>
   depthEdges \<le> 6 \<Longrightarrow> list_all (shell_ring g) (det_rings st) \<Longrightarrow>
   list_all (shell_ring g) (det_rings (dfsShellLoop g path visited depthEdges vs st))"
proof (induction g path visited u depthEdges st and g path visited depthEdges vs st
       rule: dfsShell_dfsShellLoop.induct)
  case (1 g path visited u depthEdges st)
  then show ?case by (auto split: option.splits)
next
  case (2 g path visited depthEdges st)
  then show ?case by simp
next
  case (3 g path visited depthEdges v vs st)
  note prems = "3.prems"
  show ?case
  proof (cases "det_found st \<ge> 25")
    case True
    then show ?thesis using prems by simp
  next
    case nf: False
    show ?thesis
    proof (cases "extends g visited (depthEdges + 1) v")
      case False
      then show ?thesis using "3.IH"(1)[OF nf False prems] nf by simp
    next
      case ex: True
      then have nv: "v \<notin> visited" by (simp add: extends_def)
      let ?st1 = "if depthEdges + 1 \<ge> 3 then acceptChain g (path @ [v]) (depthEdges + 1) st else st"
      have st1: "list_all (shell_ring g) (det_rings ?st1)"
        using prems nv acceptChain_shell[of g st "path @ [v]" "depthEdges + 1"] by auto
      have ex': "\<not> \<not> extends g visited (depthEdges + 1) v" using ex by simp
      have inner: "list_all (shell_ring g) (det_rings
          (dfsShell g (path @ [v]) (insert v visited) v (depthEdges + 1) ?st1))"
        using "3.IH"(2)[OF nf ex'] prems nv st1 by simp
      show ?thesis
        using "3.IH"(3)[OF nf ex' prems(1,2,3,4) inner] nf ex by simp
    qed
  qed
qed

lemma detectShellChains_fold_shell:
  "list_all (shell_ring g) (det_rings st) \<Longrightarrow>
   list_all (shell_ring g)
     (det_rings (fold (\<lambda>start st. dfsShell g [start] {start} start 0 (st\<lparr>det_found := 0\<rparr>)) ns st))"
proof (induction ns arbitrary: st)
  case Nil
  then show ?case by simp
next
  case (Cons s ns)
  have "list_all (shell_ring g) (det_rings (dfsShell g [s] {s} s 0 (st\<lparr>det_found := 0\<rparr>)))"
    using Cons.prems by (intro dfsShell_shell) simp_all
  from Cons.IH[OF this] show ?case by simp
qed

lemma detectShellChains_shell: "list_all (shell_ring g) (det_rings (detectShellChains g))"
  unfolding detectShellChains_def
  by (rule detectShellChains_fold_shell) (simp add: emptyDetection_def)



section \<open>Properties of the smurfing detector\<close>

lemma new_Set_length_le: "length (new_Set xs) \<le> length xs"
proof -
  have "length (new_Set xs) = card (set xs)"
    by (metis distinct_card new_Set_distinct new_Set_set)
  then show ?thesis by (simp add: card_length)
qed

lemma cashCount_le:
  "cashCount g receivers lo hi c \<le> length (case txIn g c of Some a \<Rightarrow> a | None \<Rightarrow> [])"
proof -
  let ?l = "case txIn g c of Some a \<Rightarrow> a | None \<Rightarrow> []"
  let ?f = "filter (\<lambda>tx. \<not> (t_sec tx < lo \<or> t_sec tx > hi) \<and> sender_id tx \<in> set receivers) ?l"
  have "cashCount g receivers lo hi c \<le> length (map sender_id ?f)"
    unfolding cashCount_def Let_def by (rule new_Set_length_le)
  also have "\<dots> \<le> length ?l" by simp
  finally show ?thesis .
qed

lemma cashStep_eq:
  "cashStep g receivers lo hi c s =
     (if cashCandidate g receivers lo hi c \<and> cashCount g receivers lo hi c > snd s
      then (Some c, cashCount g receivers lo hi c) else s)"
  using cashCount_le[of g receivers lo hi c]
  by (auto simp: cashStep_def cashCandidate_def Let_def)

lemma cash_inv_step:
  assumes "cash_inv g receivers lo hi ns s"
  shows "cash_inv g receivers lo hi (ns @ [c]) (cashStep g receivers lo hi c s)"
proof (cases "cashCandidate g receivers lo hi c \<and> cashCount g receivers lo hi c > snd s")
  case True
  then have step: "cashStep g receivers lo hi c s = (Some c, cashCount g receivers lo hi c)"
    by (simp add: cashStep_eq)
  have pre: "list_all (\<lambda>c'. \<not> cashCandidate g receivers lo hi c' \<or>
                 cashCount g receivers lo hi c' < cashCount g receivers lo hi c) ns"
  proof (cases "fst s")
    case None
    then show ?thesis using assms by (simp add: cash_inv_def first_best_def list_all_iff)
  next
    case (Some b)
    then obtain pre post where ns: "ns = pre @ b # post"
      and p: "list_all (\<lambda>c'. \<not> cashCandidate g receivers lo hi c' \<or>
                 cashCount g receivers lo hi c' < cashCount g receivers lo hi b) pre"
      and q: "list_all (\<lambda>c'. \<not> cashCandidate g receivers lo hi c' \<or>
                 cashCount g receivers lo hi c' \<le> cashCount g receivers lo hi b) post"
      using assms by (auto simp: cash_inv_def first_best_def)
    have b: "cashCount g receivers lo hi b < cashCount g receivers lo hi c"
      using True assms Some by (simp add: cash_inv_def)
    show ?thesis
      unfolding ns using p q b by (auto simp: list_all_iff)
  qed
  have "first_best g receivers lo hi (ns @ [c]) (Some c)"
    unfolding first_best_def option.case
  proof (intro conjI exI)
    show "cashCandidate g receivers lo hi c" using True by simp
    show "ns @ [c] = ns @ c # []" by simp
    show "list_all (\<lambda>c'. \<not> cashCandidate g receivers lo hi c' \<or>
                 cashCount g receivers lo hi c' < cashCount g receivers lo hi c) ns"
      by (rule pre)
    show "list_all (\<lambda>c'. \<not> cashCandidate g receivers lo hi c' \<or>
                 cashCount g receivers lo hi c' \<le> cashCount g receivers lo hi c) []"
      by simp
  qed
  then show ?thesis by (simp add: cash_inv_def step)
next
  case False
  then have step: "cashStep g receivers lo hi c s = s"
    unfolding cashStep_eq by (simp only: if_False)
  have "first_best g receivers lo hi (ns @ [c]) (fst s)"
  proof (cases "fst s")
    case None
    then have "snd s = 0" using assms by (simp add: cash_inv_def)
    then have "\<not> cashCandidate g receivers lo hi c"
      using False by (auto simp: cashCandidate_def MIN_UNIQUE_def)
    then show ?thesis using assms None by (simp add: cash_inv_def first_best_def)
  next
    case (Some b)
    then obtain pre post where ns: "ns = pre @ b # post"
      and cb: "cashCandidate g receivers lo hi b"
      and p: "list_all (\<lambda>c'. \<not> cashCandidate g receivers lo hi c' \<or>
                 cashCount g receivers lo hi c' < cashCount g receivers lo hi b) pre"
      and q: "list_all (\<lambda>c'. \<not> cashCandidate g receivers lo hi c' \<or>
                 cashCount g receivers lo hi c' \<le> cashCount g receivers lo hi b) post"
      using assms by (auto simp: cash_inv_def first_best_def)
    have "snd s = cashCount g receivers lo hi b" using assms Some by (simp add: cash_inv_def)
    then have "\<not> cashCandidate g receivers lo hi c \<or>
               cashCount g receivers lo hi c \<le> cashCount g receivers lo hi b"
      using False by auto
    then have "list_all (\<lambda>c'. \<not> cashCandidate g receivers lo hi c' \<or>
                 cashCount g receivers lo hi c' \<le> cashCount g receivers lo hi b) (post @ [c])"
      using q by simp
    then have q': "list_all (\<lambda>c'. \<not> cashCandidate g receivers lo hi c' \<or>
                 cashCount g receivers lo hi c' \<le> cashCount g receivers lo hi b) (post @ [c])" .
    show ?thesis
      unfolding first_best_def Some option.case
    proof (intro conjI exI)
      show "cashCandidate g receivers lo hi b" by (rule cb)
      show "ns @ [c] = pre @ b # (post @ [c])" by (simp add: ns)
      show "list_all (\<lambda>c'. \<not> cashCandidate g receivers lo hi c' \<or>
                 cashCount g receivers lo hi c' < cashCount g receivers lo hi b) pre" by (rule p)
      show "list_all (\<lambda>c'. \<not> cashCandidate g receivers lo hi c' \<or>
                 cashCount g receivers lo hi c' \<le> cashCount g receivers lo hi b) (post @ [c])" by (rule q')
    qed
  qed
  then show ?thesis using assms by (simp add: cash_inv_def step)
qed

lemma cash_inv_fold:
  "cash_inv g receivers lo hi prev s \<Longrightarrow>
   cash_inv g receivers lo hi (prev @ ns) (fold (cashStep g receivers lo hi) ns s)"
proof (induction ns arbitrary: prev s)
  case Nil
  then show ?case by simp
next
  case (Cons c ns)
  from Cons.IH[OF cash_inv_step[OF Cons.prems, of c]] show ?case by simp
qed

lemma pickCashout_first_best:
  "first_best g receivers lo hi (nodes g) (pickCashout g receivers lo hi)"
proof -
  have "cash_inv g receivers lo hi [] (None, 0)"
    by (simp add: cash_inv_def first_best_def)
  from cash_inv_fold[OF this, of "nodes g"] show ?thesis
    by (simp add: cash_inv_def pickCashout_def)
qed

lemma pickCashout_in_nodes: "pickCashout g receivers lo hi = Some c \<Longrightarrow> c \<in> set (nodes g)"
  using pickCashout_first_best[of g receivers lo hi] by (auto simp: first_best_def)

lemma smurfHub_rings:
  "det_rings (smurfHub g hub st) = det_rings st \<or>
   (\<exists>w. hubWindows g hub = Some w \<and>
        det_rings (smurfHub g hub st) = det_rings st @ [smurfRing g hub (fst w) (snd w)])"
  by (auto simp: smurfHub_def split: option.splits)

lemma smurfHub_origin:
  assumes "list_all (smurf_origin g hubs) (det_rings st)" and "h \<in> set hubs"
  shows "list_all (smurf_origin g hubs) (det_rings (smurfHub g h st))"
proof -
  from smurfHub_rings[of g h st] show ?thesis
  proof
    assume "det_rings (smurfHub g h st) = det_rings st"
    then show ?thesis using assms(1) by simp
  next
    assume "\<exists>w. hubWindows g h = Some w \<and>
        det_rings (smurfHub g h st) = det_rings st @ [smurfRing g h (fst w) (snd w)]"
    then obtain w where w: "hubWindows g h = Some w"
      and r: "det_rings (smurfHub g h st) = det_rings st @ [smurfRing g h (fst w) (snd w)]"
      by blast
    have "smurf_origin g hubs (smurfRing g h (fst w) (snd w))"
      unfolding smurf_origin_def using w assms(2) by blast
    then show ?thesis using assms(1) r by simp
  qed
qed

lemma detectSmurfing_fold_origin:
  "list_all (smurf_origin g hubs) (det_rings st) \<Longrightarrow> set hs \<subseteq> set hubs \<Longrightarrow>
   list_all (smurf_origin g hubs) (det_rings (fold (smurfHub g) hs st))"
proof (induction hs arbitrary: st)
  case Nil
  then show ?case by simp
next
  case (Cons h hs)
  have "list_all (smurf_origin g hubs) (det_rings (smurfHub g h st))"
    using Cons.prems by (intro smurfHub_origin) simp_all
  from Cons.IH[OF this] Cons.prems(2) show ?case by simp
qed

lemma detectSmurfing_origin:
  "list_all (smurf_origin g (nodes g)) (det_rings (detectSmurfing g))"
  unfolding detectSmurfing_def
  by (rule detectSmurfing_fold_origin) (simp_all add: emptyDetection_def)


section \<open>Properties of the graph builder and the pipeline\<close>

lemma Set_add_set [simp]: "set (Set_add s x) = insert x (set s)"
  by (auto simp: Set_add_def)

lemma nodes_fold_addTx:
  "set (nodes (fold addTx txs g)) = set (nodes g) \<union> sender_id ` set txs \<union> receiver_id ` set txs"
  by (induction txs arbitrary: g) (auto simp: addTx_def)

lemma nodes_buildGraph:
  "set (nodes (buildGraph txs)) = sender_id ` set txs \<union> receiver_id ` set txs"
  by (simp add: buildGraph_def Let_def nodes_fold_addTx emptyGraph_def)

lemma new_Set_snoc_mem: "x \<in> set xs \<Longrightarrow> new_Set (xs @ [x]) = new_Set xs"
proof -
  have "set_add_all acc (xs @ [x]) = set_add_all acc xs" if "x \<in> set acc \<union> set xs" for acc
    using that
  proof (induction xs arbitrary: acc)
    case Nil
    then show ?case by simp
  next
    case (Cons a xs)
    then show ?case by auto
  qed
  then show "x \<in> set xs \<Longrightarrow> new_Set (xs @ [x]) = new_Set xs"
    by (simp add: new_Set_def)
qed

lemma smurfMembers_uniq:
  assumes "cashout \<noteq> Some []"
  shows "uniqPreserveOrder (smurfMembers hub senders receivers cashout) =
         uniqPreserveOrder ([hub] @ sort senders @ sort receivers @
                            (case cashout of None \<Rightarrow> [] | Some c \<Rightarrow> [c]))"
proof (cases cashout)
  case None
  then show ?thesis by (simp add: smurfMembers_def truthy_def)
next
  case (Some c)
  then have t: "truthy cashout" using assms by (simp add: truthy_def)
  show ?thesis
  proof (cases "c \<in> set ([hub] @ sort senders @ sort receivers)")
    case True
    have "new_Set (([hub] @ sort senders @ sort receivers) @ [c]) =
          new_Set ([hub] @ sort senders @ sort receivers)"
      by (rule new_Set_snoc_mem[OF True])
    moreover have "smurfMembers hub senders receivers cashout = [hub] @ sort senders @ sort receivers"
      using True Some by (simp add: smurfMembers_def Let_def)
    ultimately show ?thesis
      using Some by (simp add: uniqPreserveOrder_new_Set)
  next
    case False
    then have "smurfMembers hub senders receivers cashout = ([hub] @ sort senders @ sort receivers) @ [c]"
      using Some t by (simp add: smurfMembers_def Let_def)
    then show ?thesis using Some by simp
  qed
qed

lemma hubCashout_in_nodes: "hubCashout g bi bo = Some c \<Longrightarrow> c \<in> set (nodes g)"
  unfolding hubCashout_def by (rule pickCashout_in_nodes)

lemma analyze_fraud_rings:
  assumes "fr \<in> set (fraud_rings (analyze lc t0 t1 txs))"
  shows "\<exists>i k. fr = toFraudRing i k \<and>
           k \<in> set (det_rings (detectSmurfing (buildGraph txs)) @
                    det_rings (detectCycles35 (buildGraph txs)) @
                    det_rings (detectShellChains (buildGraph txs)))"
proof -
  let ?g = "buildGraph txs"
  let ?rings0 = "det_rings (detectSmurfing ?g) @ det_rings (detectCycles35 ?g) @
                 det_rings (detectShellChains ?g)"
  let ?rings2 = "mergeRings ?rings0 (6 / 10)"
  have "fr \<in> set (toFraudRings (ringList lc ?rings2))"
    using assms by (simp add: analyze_def Let_def fraud_rings_eq adjustRingRisks_def)
  then obtain i where i: "i < length (ringList lc ?rings2)"
    and fr: "fr = toFraudRing i (ringList lc ?rings2 ! i)"
    by (metis in_set_conv_nth toFraudRings_length toFraudRings_nth)
  have "ringList lc ?rings2 ! i \<in> set (map snd (bestBySig_loop [] ?rings2))"
    using i ringList_set[of lc ?rings2] nth_mem by blast
  then have "ringList lc ?rings2 ! i \<in> set ?rings2"
    using kept_best by blast
  then have "ringList lc ?rings2 ! i \<in> set ?rings0"
    using mergeUnused_subset unfolding mergeRings_unused by blast
  then show ?thesis using fr by blast
qed

section \<open>The claims about the detectors and the pipeline\<close>

lemma ex_rings_detected: "det_rings (detectCycles35 (buildGraph ex_cycle_txs)) = ex_rings"
  by code_simp

text \<open>
  Claim C10. Every ring the cycle detector emits is a cycle ring with between 3 and 5
  members, pairwise distinct; so neither a self-loop nor a two-node back-and-forth pair
  yields a ring.
\<close>

theorem cycle_rings_sized: "list_all cycle_sized (det_rings (detectCycles35 g))"
  by (rule detectCycles35_sized)

theorem cycle_rings_sized_witness:
  "map member_accounts (det_rings (detectCycles35 (buildGraph ex_cycle_txs))) =
     [[''a'', ''b'', ''c''], [''a'', ''b'', ''c'', ''d''], [''b'', ''c'', ''d'']] \<and>
   list_all cycle_sized (det_rings (detectCycles35 (buildGraph ex_cycle_txs))) \<and>
   det_rings (detectCycles35 (buildGraph ex_loop_txs)) = []"
proof -
  have v: "map member_accounts (det_rings (detectCycles35 (buildGraph ex_cycle_txs))) =
     [[''a'', ''b'', ''c''], [''a'', ''b'', ''c'', ''d''], [''b'', ''c'', ''d'']]"
    by code_simp
  have e: "det_rings (detectCycles35 (buildGraph ex_loop_txs)) = []"
    by code_simp
  show ?thesis
    using cycle_rings_sized[of "buildGraph ex_cycle_txs"] v e by simp
qed







lemma smurf_ring_origin:
  assumes "r \<in> set (det_rings (detectSmurfing g))"
  shows "\<exists>hub w. hub \<in> set (nodes g) \<and> hubWindows g hub = Some w \<and>
                 r = smurfRing g hub (fst w) (snd w)"
  using detectSmurfing_origin[of g] assms
  unfolding list_all_iff smurf_origin_def by blast



text \<open>
  Claim C6, as stated: among the cash-out candidates with the highest count the
  lexicographically smallest id is chosen. It fails: \<open>z\<close> and \<open>k\<close> both receive from all ten
  receivers inside the window and have no out-transaction; \<open>z\<close> comes first in the node
  set, \<open>k\<close> is the smaller id, and the detector chooses \<open>z\<close>.
\<close>

theorem cashout_tie_counterexample:
  "hubWindows (buildGraph ex_smurf_txs) ''h'' \<noteq> None \<and>
   hubCashout (buildGraph ex_smurf_txs)
     (fst (the (hubWindows (buildGraph ex_smurf_txs) ''h'')))
     (snd (the (hubWindows (buildGraph ex_smurf_txs) ''h''))) = Some ''z'' \<and>
   cashCandidate (buildGraph ex_smurf_txs)
     (w_counterparties (snd (the (hubWindows (buildGraph ex_smurf_txs) ''h'')))) 0 40 ''k'' \<and>
   cashCount (buildGraph ex_smurf_txs)
     (w_counterparties (snd (the (hubWindows (buildGraph ex_smurf_txs) ''h'')))) 0 40 ''k'' =
   cashCount (buildGraph ex_smurf_txs)
     (w_counterparties (snd (the (hubWindows (buildGraph ex_smurf_txs) ''h'')))) 0 40 ''z'' \<and>
   min (w_minT (fst (the (hubWindows (buildGraph ex_smurf_txs) ''h''))))
       (w_minT (snd (the (hubWindows (buildGraph ex_smurf_txs) ''h'')))) = 0 \<and>
   max (w_maxT (fst (the (hubWindows (buildGraph ex_smurf_txs) ''h''))))
       (w_maxT (snd (the (hubWindows (buildGraph ex_smurf_txs) ''h'')))) = 40 \<and>
   ''k'' < ''z'' \<and>
   map (\<lambda>r. last (member_accounts r)) (det_rings (detectSmurfing (buildGraph ex_smurf_txs))) = [''z'']"
  by code_simp

text \<open>
  Claim C6, amended. Every emitted smurfing ring comes from a hub whose windows passed
  the tests, and its member list ends with the cash-out node when one was chosen and is
  not a member already. No node is chosen when no node is a candidate; otherwise the
  chosen node is a candidate (at least 10 unique senders among the hub's receivers inside
  \<open>[minT, maxT]\<close>, out-list of length at most 2), no candidate has a higher count, and
  every candidate before it in the iteration order of the node set has a lower count: a
  tie goes to the node inserted first, not to the smallest id.
\<close>

theorem cashout_choice:
  assumes "r \<in> set (det_rings (detectSmurfing g))"
  shows "\<exists>hub w. hub \<in> set (nodes g) \<and> hubWindows g hub = Some w \<and>
           member_accounts r =
             smurfMembers hub (w_counterparties (fst w)) (w_counterparties (snd w))
               (hubCashout g (fst w) (snd w)) \<and>
           first_best g (w_counterparties (snd w))
             (min (w_minT (fst w)) (w_minT (snd w))) (max (w_maxT (fst w)) (w_maxT (snd w)))
             (nodes g) (hubCashout g (fst w) (snd w))"
proof -
  from smurf_ring_origin[OF assms] obtain hub w where
    h: "hub \<in> set (nodes g)" "hubWindows g hub = Some w" "r = smurfRing g hub (fst w) (snd w)"
    by blast
  have m: "member_accounts r =
             smurfMembers hub (w_counterparties (fst w)) (w_counterparties (snd w))
               (hubCashout g (fst w) (snd w))"
    by (simp add: h(3) smurfRing_def Let_def)
  have f: "first_best g (w_counterparties (snd w))
             (min (w_minT (fst w)) (w_minT (snd w))) (max (w_maxT (fst w)) (w_maxT (snd w)))
             (nodes g) (hubCashout g (fst w) (snd w))"
    unfolding hubCashout_def by (rule pickCashout_first_best)
  from h(1,2) m f show ?thesis by blast
qed

theorem cashout_choice_witness:
  "hd (det_rings (detectSmurfing (buildGraph ex_smurf_txs)))
     \<in> set (det_rings (detectSmurfing (buildGraph ex_smurf_txs))) \<and>
   (\<exists>hub w. hub \<in> set (nodes (buildGraph ex_smurf_txs)) \<and>
      hubWindows (buildGraph ex_smurf_txs) hub = Some w \<and>
      member_accounts (hd (det_rings (detectSmurfing (buildGraph ex_smurf_txs)))) =
        smurfMembers hub (w_counterparties (fst w)) (w_counterparties (snd w))
          (hubCashout (buildGraph ex_smurf_txs) (fst w) (snd w)) \<and>
      first_best (buildGraph ex_smurf_txs) (w_counterparties (snd w))
        (min (w_minT (fst w)) (w_minT (snd w))) (max (w_maxT (fst w)) (w_maxT (snd w)))
        (nodes (buildGraph ex_smurf_txs)) (hubCashout (buildGraph ex_smurf_txs) (fst w) (snd w)))"
proof -
  have "length (det_rings (detectSmurfing (buildGraph ex_smurf_txs))) = 1" by code_simp
  then have c: "hd (det_rings (detectSmurfing (buildGraph ex_smurf_txs)))
     \<in> set (det_rings (detectSmurfing (buildGraph ex_smurf_txs)))"
    by (cases "det_rings (detectSmurfing (buildGraph ex_smurf_txs))") simp_all
  from cashout_choice[OF c] c show ?thesis by blast
qed

text \<open>
  Claim C7. Every smurfing ring in the output document of a run on transactions with
  non-empty account ids comes from a hub whose windows passed the tests; its member list
  is the hub, the in-window's senders ascending, the out-window's receivers ascending and
  the cash-out node if one was chosen, with duplicates removed by first occurrence (by
  \<open>uniqPreserveOrder\<close>, which is \<open>remdups\<close> on the reversed list, reversed); no account
  appears twice.
\<close>

theorem smurfing_member_order:
  assumes "list_all (\<lambda>tx. sender_id tx \<noteq> [] \<and> receiver_id tx \<noteq> []) txs"
    and "fr \<in> set (fraud_rings (analyze lc t0 t1 txs))"
    and "pattern_type fr = ''smurfing''"
  shows "\<exists>hub w. hub \<in> set (nodes (buildGraph txs)) \<and> hubWindows (buildGraph txs) hub = Some w \<and>
           member_accounts fr =
             uniqPreserveOrder
               ([hub] @ sort (w_counterparties (fst w)) @ sort (w_counterparties (snd w)) @
                (case hubCashout (buildGraph txs) (fst w) (snd w) of None \<Rightarrow> [] | Some c \<Rightarrow> [c])) \<and>
           member_accounts fr =
             rev (remdups (rev
               ([hub] @ sort (w_counterparties (fst w)) @ sort (w_counterparties (snd w)) @
                (case hubCashout (buildGraph txs) (fst w) (snd w) of None \<Rightarrow> [] | Some c \<Rightarrow> [c])))) \<and>
           distinct (member_accounts fr)"
proof -
  let ?g = "buildGraph txs"
  from analyze_fraud_rings[OF assms(2)] obtain i k where
    fr: "fr = toFraudRing i k"
    and k: "k \<in> set (det_rings (detectSmurfing ?g) @ det_rings (detectCycles35 ?g) @
                     det_rings (detectShellChains ?g))"
    by blast
  have pk: "pattern_type k = ''smurfing''" using assms(3) fr by simp
  have "k \<notin> set (det_rings (detectCycles35 ?g))"
    using detectCycles35_sized[of ?g] pk by (auto simp: list_all_iff cycle_sized_def)
  moreover have "k \<notin> set (det_rings (detectShellChains ?g))"
    using detectShellChains_shell[of ?g] pk by (auto simp: list_all_iff shell_ring_def)
  ultimately have "k \<in> set (det_rings (detectSmurfing ?g))" using k by auto
  from smurf_ring_origin[OF this] obtain hub w where
    h: "hub \<in> set (nodes ?g)" "hubWindows ?g hub = Some w" "k = smurfRing ?g hub (fst w) (snd w)"
    by blast
  have ne: "[] \<notin> set (nodes ?g)"
    using assms(1) by (auto simp: nodes_buildGraph list_all_iff)
  have c: "hubCashout ?g (fst w) (snd w) \<noteq> Some []"
    using hubCashout_in_nodes[of ?g "fst w" "snd w" "[]"] ne by blast
  have mk: "member_accounts k =
      smurfMembers hub (w_counterparties (fst w)) (w_counterparties (snd w))
        (hubCashout ?g (fst w) (snd w))"
    by (simp add: h(3) smurfRing_def Let_def)
  have mf: "member_accounts fr = uniqPreserveOrder (member_accounts k)"
    using pk by (simp add: fr toFraudRing_def)
  have m: "member_accounts fr =
             uniqPreserveOrder
               ([hub] @ sort (w_counterparties (fst w)) @ sort (w_counterparties (snd w)) @
                (case hubCashout ?g (fst w) (snd w) of None \<Rightarrow> [] | Some c \<Rightarrow> [c]))"
    unfolding mf mk by (rule smurfMembers_uniq[OF c])
  have d: "distinct (member_accounts fr)"
    unfolding mf by (simp add: uniqPreserveOrder_new_Set)
  have m': "member_accounts fr =
             rev (remdups (rev
               ([hub] @ sort (w_counterparties (fst w)) @ sort (w_counterparties (snd w)) @
                (case hubCashout ?g (fst w) (snd w) of None \<Rightarrow> [] | Some c \<Rightarrow> [c]))))"
    unfolding m by (rule uniqPreserveOrder_first_occurrence)
  from h(1,2) m m' d show ?thesis by blast
qed

theorem smurfing_member_order_witness:
  "list_all (\<lambda>tx. sender_id tx \<noteq> [] \<and> receiver_id tx \<noteq> []) ex_smurf2_txs \<and>
   hd (fraud_rings (analyze codeUnitCompare 1000 1250 ex_smurf2_txs))
     \<in> set (fraud_rings (analyze codeUnitCompare 1000 1250 ex_smurf2_txs)) \<and>
   pattern_type (hd (fraud_rings (analyze codeUnitCompare 1000 1250 ex_smurf2_txs))) = ''smurfing'' \<and>
   member_accounts (hd (det_rings (detectSmurfing (buildGraph ex_smurf2_txs)))) =
     [''h'', ''s0'', ''s1'', ''s2'', ''s3'', ''s4'', ''s5'', ''s6'', ''s7'', ''s8'', ''s9'',
      ''r1'', ''r2'', ''r3'', ''r4'', ''r5'', ''r6'', ''r7'', ''r8'', ''r9'', ''s0''] \<and>
   member_accounts (hd (fraud_rings (analyze codeUnitCompare 1000 1250 ex_smurf2_txs))) =
     [''h'', ''s0'', ''s1'', ''s2'', ''s3'', ''s4'', ''s5'', ''s6'', ''s7'', ''s8'', ''s9'',
      ''r1'', ''r2'', ''r3'', ''r4'', ''r5'', ''r6'', ''r7'', ''r8'', ''r9''] \<and>
   (\<exists>hub w. hub \<in> set (nodes (buildGraph ex_smurf2_txs)) \<and>
      hubWindows (buildGraph ex_smurf2_txs) hub = Some w \<and>
      member_accounts (hd (fraud_rings (analyze codeUnitCompare 1000 1250 ex_smurf2_txs))) =
        uniqPreserveOrder
          ([hub] @ sort (w_counterparties (fst w)) @ sort (w_counterparties (snd w)) @
           (case hubCashout (buildGraph ex_smurf2_txs) (fst w) (snd w) of None \<Rightarrow> [] | Some c \<Rightarrow> [c])) \<and>
      member_accounts (hd (fraud_rings (analyze codeUnitCompare 1000 1250 ex_smurf2_txs))) =
        rev (remdups (rev
          ([hub] @ sort (w_counterparties (fst w)) @ sort (w_counterparties (snd w)) @
           (case hubCashout (buildGraph ex_smurf2_txs) (fst w) (snd w) of None \<Rightarrow> [] | Some c \<Rightarrow> [c])))) \<and>
      distinct (member_accounts (hd (fraud_rings (analyze codeUnitCompare 1000 1250 ex_smurf2_txs)))))"
proof -
  have a: "list_all (\<lambda>tx. sender_id tx \<noteq> [] \<and> receiver_id tx \<noteq> []) ex_smurf2_txs"
    by code_simp
  have l: "length (fraud_rings (analyze codeUnitCompare 1000 1250 ex_smurf2_txs)) = 1"
    by code_simp
  then have b: "hd (fraud_rings (analyze codeUnitCompare 1000 1250 ex_smurf2_txs))
     \<in> set (fraud_rings (analyze codeUnitCompare 1000 1250 ex_smurf2_txs))"
    by (cases "fraud_rings (analyze codeUnitCompare 1000 1250 ex_smurf2_txs)") simp_all
  have c: "pattern_type (hd (fraud_rings (analyze codeUnitCompare 1000 1250 ex_smurf2_txs))) = ''smurfing''"
    by code_simp
  have d: "member_accounts (hd (det_rings (detectSmurfing (buildGraph ex_smurf2_txs)))) =
     [''h'', ''s0'', ''s1'', ''s2'', ''s3'', ''s4'', ''s5'', ''s6'', ''s7'', ''s8'', ''s9'',
      ''r1'', ''r2'', ''r3'', ''r4'', ''r5'', ''r6'', ''r7'', ''r8'', ''r9'', ''s0'']"
    by code_simp
  have e: "member_accounts (hd (fraud_rings (analyze codeUnitCompare 1000 1250 ex_smurf2_txs))) =
     [''h'', ''s0'', ''s1'', ''s2'', ''s3'', ''s4'', ''s5'', ''s6'', ''s7'', ''s8'', ''s9'',
      ''r1'', ''r2'', ''r3'', ''r4'', ''r5'', ''r6'', ''r7'', ''r8'', ''r9'']"
    by code_simp
  from smurfing_member_order[OF a b c] a b c d e show ?thesis by blast
qed




end
